theory Spec2Isabelle
  imports Complex_Main "HOL-Library.AList" "HOL-Library.Word"
begin

unbundle bit_operations_syntax

section \<open>Data model of the mempool (src/mempool/mempool.js)\<close>

text \<open>
  Hashes are the hex strings the code uses as keys of its maps. An outpoint is the pair of a
  transaction hash and an output index; \<open>Outpoint.toKey(hash, index)\<close> is injective, so the
  key of the spent map is the pair itself.

  JavaScript numbers are doubles. Every field below (fees, sizes, times, memory usage)
  holds an integer below \<open>2^53\<close> in magnitude, where doubles are exact, and is modelled as
  an integer. The products of the comparator can pass \<open>2^53\<close>: there the result of the
  arithmetic is rounded to the nearest double (\<open>toDouble\<close>).
\<close>

type_synonym hash = string
type_synonym outpoint = "hash \<times> nat"

text \<open>
  Modelled from the spec: the class TX (primitives/tx.js), which is not part of the sources
  at hand. A transaction is the record of what the mempool reads from it: its hash, the
  prevouts of its inputs, the values of its outputs, and the results of the methods the
  mempool calls (\<open>checkSanity\<close>, \<open>isCoinbase\<close>, \<open>hasWitness\<close>, \<open>checkStandard\<close>, \<open>isRBF\<close>,
  \<open>getWeight\<close>, ...). A check
  result is \<open>None\<close> when the check passes and \<open>Some (reason, score)\<close> when it fails.
  \<open>usage\<close> is the number \<open>MempoolEntry.memUsage()\<close> computes from the transaction,
  \<open>getHashes\<close> the method \<open>getHashes(view, 'hex')\<close> (the address hashes of the inputs and
  outputs) and \<open>outputHash i\<close> the result of \<open>outputs[i].getHash('hex')\<close>, \<open>None\<close> for
  \<open>null\<close>.
\<close>

record tx =
  tx_hash :: hash
  inputs :: "outpoint list"
  outputs :: "int list"
  mutable :: bool
  checkSanity :: "(string \<times> int) option"
  isCoinbase :: bool
  version :: int
  hasWitness :: bool
  checkStandard :: "(string \<times> int) option"
  isRBF :: bool
  getWeight :: int
  vsize :: int
  sigopsCost :: int
  usage :: int
  getHashes :: "(outpoint \<rightharpoonup> int) \<Rightarrow> string list"
  outputHash :: "nat \<Rightarrow> string option"

text \<open>
  Modelled from the spec: the class MempoolEntry (mempool/mempoolentry.js), which is not
  part of the sources at hand, with the fields the mempool reads and writes. \<open>size_e\<close> is the field \<open>size\<close> of the source.
\<close>

record entry =
  tx :: tx
  height :: int
  size_e :: int
  sigops :: int
  priority :: int
  fee :: int
  deltaFee :: int
  time :: int
  descFee :: int
  descSize :: int

definition memUsage :: "entry \<Rightarrow> int" where
  "memUsage e = usage (tx e)"

definition hash_e :: "entry \<Rightarrow> hash" where
  "hash_e e = tx_hash (tx e)"

section \<open>The fee callbacks and the eviction comparator\<close>

definition nop :: "entry \<Rightarrow> entry \<Rightarrow> entry" where
  "nop parent child = parent"

definition addFee :: "entry \<Rightarrow> entry \<Rightarrow> entry" where
  "addFee parent child =
     parent\<lparr>descFee := descFee parent + deltaFee child,
            descSize := descSize parent + size_e child\<rparr>"

definition removeFee :: "entry \<Rightarrow> entry \<Rightarrow> entry" where
  "removeFee parent child =
     parent\<lparr>descFee := descFee parent - descFee child,
            descSize := descSize parent - descSize child\<rparr>"

text \<open>
  The double nearest to an integer, ties to even: an integer below \<open>2^53\<close> in magnitude is
  a double; a longer one keeps its 53 leading bits. \<open>bitlen\<close> is the number of bits of a
  natural number. A product of two fields is below \<open>2^106\<close> in magnitude, far from the
  range where a double overflows.
\<close>

fun bitlen :: "nat \<Rightarrow> nat" where
  "bitlen n = (if n = 0 then 0 else Suc (bitlen (n div 2)))"

definition toDouble :: "int \<Rightarrow> int" where
  "toDouble n =
     (if \<bar>n\<bar> < 2 ^ 53 then n
      else
        let m = nat \<bar>n\<bar>;
            e = bitlen m - 53;
            q = m div 2 ^ e;
            r = m mod 2 ^ e;
            q1 = (if 2 * r > 2 ^ e \<or> (2 * r = 2 ^ e \<and> odd q) then q + 1 else q)
        in sgn n * int (q1 * 2 ^ e))"

definition useDesc :: "entry \<Rightarrow> bool" where
  "useDesc a =
     (let x = toDouble (deltaFee a * descSize a); y = toDouble (descFee a * size_e a) in y > x)"

definition cmpRate :: "entry \<Rightarrow> entry \<Rightarrow> int" where
  "cmpRate a b =
     (let xf = (if useDesc a then descFee a else deltaFee a);
          xs = (if useDesc a then descSize a else size_e a);
          yf = (if useDesc b then descFee b else deltaFee b);
          ys = (if useDesc b then descSize b else size_e b);
          x = toDouble (xf * ys);
          y = toDouble (xs * yf)
      in if x = y then time a - time b else toDouble (x - y))"

text \<open>The two rates the specification speaks of, as exact fractions.\<close>

definition directRate :: "entry \<Rightarrow> real" where
  "directRate a = of_int (deltaFee a) / of_int (size_e a)"

definition packageRate :: "entry \<Rightarrow> real" where
  "packageRate a = of_int (descFee a) / of_int (descSize a)"

definition lesserRate :: "entry \<Rightarrow> real" where
  "lesserRate a = min (directRate a) (packageRate a)"

definition greaterRate :: "entry \<Rightarrow> real" where
  "greaterRate a = max (directRate a) (packageRate a)"

text \<open>
  Every product of a fee field and a size field of the two entries is below \<open>2^53\<close> in
  magnitude, so the products the comparator computes are exact as doubles.
\<close>

definition exact_products :: "entry \<Rightarrow> entry \<Rightarrow> bool" where
  "exact_products a b =
     (\<forall>f \<in> {deltaFee a, descFee a, deltaFee b, descFee b}.
      \<forall>s \<in> {size_e a, descSize a, size_e b, descSize b}. \<bar>f * s\<bar> < 2 ^ 53)"

text \<open>Two sample transactions and entries used to run the definitions.\<close>

definition mk_tx :: "hash \<Rightarrow> outpoint list \<Rightarrow> int list \<Rightarrow> tx" where
  "mk_tx h ins outs =
     \<lparr>tx_hash = h, inputs = ins, outputs = outs, mutable = False, checkSanity = None,
      isCoinbase = False, version = 1, hasWitness = False, checkStandard = None,
      isRBF = False, getWeight = 400, vsize = 100, sigopsCost = 4, usage = 500,
      getHashes = (\<lambda>v. []), outputHash = (\<lambda>i. None)\<rparr>"

definition mk_entry :: "tx \<Rightarrow> int \<Rightarrow> int \<Rightarrow> int \<Rightarrow> int \<Rightarrow> int \<Rightarrow> entry" where
  "mk_entry t dfee sz dscfee dscsize tm =
     \<lparr>tx = t, height = 0, size_e = sz, sigops = 4, priority = 0, fee = dfee,
      deltaFee = dfee, time = tm, descFee = dscfee, descSize = dscsize\<rparr>"

section \<open>Errors, events, collaborators and the state\<close>

text \<open>
  \<open>VerifyError\<close> (protocol/errors.js) carries the transaction, a code (the specification
  calls it the type: invalid, nonstandard, alreadyknown, duplicate, insufficientfee,
  highfee), a reason, a score and the flag \<open>malleated\<close>. Every other exception the code can
  meet is an assertion failure or an error of a collaborator (chain, database).
\<close>

record verify_error =
  ve_hash :: hash
  ve_code :: string
  ve_reason :: string
  ve_score :: int
  malleated :: bool

datatype error = VerifyError verify_error | AssertionError string | OtherError string

definition newVerifyError :: "tx \<Rightarrow> string \<Rightarrow> string \<Rightarrow> int \<Rightarrow> bool \<Rightarrow> error" where
  "newVerifyError t code reason score mal =
     VerifyError \<lparr>ve_hash = tx_hash t, ve_code = code, ve_reason = reason,
                  ve_score = score, malleated = mal\<rparr>"

definition isVerifyError :: "error \<Rightarrow> bool" where
  "isVerifyError e = (case e of VerifyError v \<Rightarrow> True | _ \<Rightarrow> False)"

text \<open>The events the mempool emits, in program order.\<close>

datatype event =
    Ev_tx hash
  | Ev_add_entry hash
  | Ev_remove_entry hash
  | Ev_confirmed hash hash
  | Ev_unconfirmed hash hash
  | Ev_conflict hash
  | Ev_double_spend hash
  | Ev_add_orphan hash
  | Ev_remove_orphan hash
  | Ev_bad_orphan error int
  | Ev_error error

text \<open>
  An orphan keeps the serialized transaction; \<open>toTX\<close> parses it again and may throw.
  \<open>raw = None\<close> stands for bytes that \<open>TX.fromRaw\<close> rejects. \<open>id_o\<close> is the field \<open>id\<close>.
\<close>

record orphan =
  raw :: "tx option"
  missing :: int
  id_o :: int

definition newOrphan :: "tx \<Rightarrow> int \<Rightarrow> int \<Rightarrow> orphan" where
  "newOrphan t m i = \<lparr>raw = Some t, missing = m, id_o = i\<rparr>"

text \<open>A coin view maps the outpoints it resolves to the value of the coin.\<close>

type_synonym view = "outpoint \<rightharpoonup> int"

text \<open>
  Modelled from the spec: the class \<open>RollingFilter\<close> (utils/rollingfilter.js), which is not
  part of the sources at hand, the set of recently rejected transaction hashes. The filter
  is the list of the hashes added since its last reset: \<open>add\<close> appends a hash,
  \<open>reset\<close> empties the list and \<open>test\<close> is membership. False positives and the rolling
  window are not modelled.
\<close>

type_synonym rolling_filter = "hash list"

text \<open>
  The address indices \<open>TXIndex\<close> and \<open>CoinIndex\<close>. Each keeps a map from an address hash
  to the \<open>Map\<close> of its items, of which the model keeps the keys in insertion order, and a
  map from the key of an item to its addresses.
\<close>

record tx_index =
  ti_index :: "string \<rightharpoonup> hash list"
  ti_map :: "hash \<rightharpoonup> string list"

record coin_index =
  ci_index :: "string \<rightharpoonup> outpoint list"
  ci_map :: "outpoint \<rightharpoonup> string"

text \<open>
  The state of a \<open>Mempool\<close> object. \<open>map_p\<close> is the field \<open>map\<close> and \<open>size_p\<close> the field
  \<open>size\<close>. A JavaScript \<open>Map\<close> iterates in insertion order, so the maps the code iterates
  over (\<open>map\<close>, \<open>orphans\<close>) are association lists in insertion order, and a \<open>Set\<close> that is
  iterated is a list of distinct elements.

  Entry objects are shared by reference between \<open>map\<close> and \<open>spents\<close>. The code files an
  entry under the hash of its transaction in \<open>map\<close>, and every value of \<open>spents\<close> is an
  entry of \<open>map\<close>; the model keeps the one record of an entry in \<open>map_p\<close> and lets
  \<open>spents\<close> refer to it by that hash. The logger, the fee estimator and the batch of the
  database cache are written but never read by the functions below and are left out.
\<close>

record mempool =
  size_p :: int
  freeCount :: real
  lastTime :: int
  lastFlush :: int
  tip :: hash
  waiting :: "hash \<rightharpoonup> hash list"
  orphans :: "(hash \<times> orphan) list"
  map_p :: "(hash \<times> entry) list"
  spents :: "outpoint \<rightharpoonup> hash"
  rejects :: rolling_filter
  coinIndex :: coin_index
  txIndex :: tx_index
  events :: "event list"

text \<open>
  What the mempool reads from its surroundings: its options, the chain, the policy
  constants, the clock, the random generator, and the methods of a transaction that need a
  coin view. A call of a collaborator that can fail returns \<open>Inl\<close> of the message.
  \<open>errorListener\<close> tells whether a listener of the event \<open>error\<close> is attached to the
  mempool. \<open>batch_write\<close> and \<open>cache_wipe\<close> are the writes of the database of the cache
  (db/ldb.js, not part of the sources at hand): \<open>batch.write()\<close> in \<open>MempoolCache.flush\<close>
  and the reads and the write of \<open>MempoolCache.wipe\<close>; each gives the message of the error
  when the database fails.
\<close>

record options =
  maxSize :: int
  maxOrphans :: int
  maxAncestors :: int
  expiryTime :: int
  minRelay :: int
  limitFree :: bool
  limitFreeRelay :: int
  relayPriority :: bool
  requireStandard :: bool
  rejectAbsurdFees :: bool
  prematureWitness :: bool
  paranoidChecks :: bool
  replaceByFee :: bool
  indexAddress :: bool
  persistent :: bool

record chain =
  chain_height :: int
  chain_tip :: hash
  genesis_hash :: hash
  hasCSV :: bool
  chain_hasWitness :: bool
  chain_verifyFinal :: "tx \<Rightarrow> string + bool"
  chain_hasCoins :: "tx \<Rightarrow> string + bool"
  chain_readCoin :: "outpoint \<Rightarrow> string + int option"
  chain_verifyLocks :: "tx \<Rightarrow> view \<Rightarrow> string + bool"
  hasPending :: "hash \<Rightarrow> bool"

record policy =
  MAX_TX_WEIGHT :: int
  MAX_TX_SIGOPS_COST :: int
  getMinFee :: "int \<Rightarrow> int \<Rightarrow> int"
  STANDARD_VERIFY_FLAGS :: "32 word"
  MANDATORY_VERIFY_FLAGS :: "32 word"
  ONLY_STANDARD_VERIFY_FLAGS :: "32 word"
  VERIFY_WITNESS :: "32 word"
  VERIFY_CLEANSTACK :: "32 word"

record env =
  opts :: options
  chn :: chain
  pol :: policy
  now :: int
  randomRange :: "nat \<Rightarrow> nat \<Rightarrow> nat"
  hasStandardInputs :: "tx \<Rightarrow> view \<Rightarrow> bool"
  hasStandardWitness :: "tx \<Rightarrow> view \<Rightarrow> bool"
  isFree :: "entry \<Rightarrow> int \<Rightarrow> bool"
  checkInputs :: "tx \<Rightarrow> view \<Rightarrow> int \<Rightarrow> int \<times> string \<times> int"
  verifyAsync :: "tx \<Rightarrow> view \<Rightarrow> 32 word \<Rightarrow> string + bool"
  getFee :: "tx \<Rightarrow> view \<Rightarrow> int"
  getPriority :: "tx \<Rightarrow> view \<Rightarrow> int \<Rightarrow> int"
  errorListener :: bool
  batch_write :: "mempool \<Rightarrow> string option"
  cache_wipe :: "mempool \<Rightarrow> string option"

type_synonym 'a result = "(error + 'a) \<times> mempool"

text \<open>The constructor \<open>Mempool(options)\<close>.\<close>

definition Mempool :: "env \<Rightarrow> mempool" where
  "Mempool env =
     \<lparr>size_p = 0, freeCount = 0, lastTime = 0, lastFlush = 0,
      tip = genesis_hash (chn env), waiting = Map.empty, orphans = [], map_p = [],
      spents = Map.empty, rejects = [],
      coinIndex = \<lparr>ci_index = Map.empty, ci_map = Map.empty\<rparr>,
      txIndex = \<lparr>ti_index = Map.empty, ti_map = Map.empty\<rparr>, events = []\<rparr>"

text \<open>
  Modelled from the spec: \<open>emit\<close> of the event emitter that \<open>Mempool\<close> inherits through
  \<open>AsyncObject\<close> (utils/asyncobject.js, not part of the sources at hand). The model keeps
  the events emitted, in program order; listeners are taken not to throw. The event
  \<open>error\<close> is the exception of an event emitter: emitted while no listener of \<open>error\<close> is
  attached, it throws the error it was given.
\<close>

definition emit :: "mempool \<Rightarrow> event \<Rightarrow> mempool" where
  "emit s ev = s\<lparr>events := events s @ [ev]\<rparr>"

definition emit_error :: "env \<Rightarrow> mempool \<Rightarrow> error \<Rightarrow> unit result" where
  "emit_error env s e =
     (if errorListener env then (Inr (), emit s (Ev_error e)) else (Inl e, s))"

text \<open>
  \<open>MempoolCache.flush\<close>: without a database (\<open>options.persistent\<close> is off) it returns at
  once; otherwise it writes the batch, and throws when the database fails.
\<close>

definition cache_flush :: "env \<Rightarrow> mempool \<Rightarrow> error option" where
  "cache_flush env s =
     (if persistent (opts env) then map_option OtherError (batch_write env s) else None)"

section \<open>Lookups\<close>

definition getEntry :: "mempool \<Rightarrow> hash \<Rightarrow> entry option" where
  "getEntry s h = map_of (map_p s) h"

definition getTX :: "mempool \<Rightarrow> hash \<Rightarrow> tx option" where
  "getTX s h = (case map_of (map_p s) h of None \<Rightarrow> None | Some entry \<Rightarrow> Some (tx entry))"

definition hasEntry :: "mempool \<Rightarrow> hash \<Rightarrow> bool" where
  "hasEntry s h = (map_of (map_p s) h \<noteq> None)"

definition isSpent :: "mempool \<Rightarrow> hash \<Rightarrow> nat \<Rightarrow> bool" where
  "isSpent s h i = (spents s (h, i) \<noteq> None)"

definition getSpent :: "mempool \<Rightarrow> hash \<Rightarrow> nat \<Rightarrow> entry option" where
  "getSpent s h i = (case spents s (h, i) of None \<Rightarrow> None | Some r \<Rightarrow> getEntry s r)"

definition getOrphan :: "mempool \<Rightarrow> hash \<Rightarrow> orphan option" where
  "getOrphan s h = map_of (orphans s) h"

definition hasOrphan :: "mempool \<Rightarrow> hash \<Rightarrow> bool" where
  "hasOrphan s h = (map_of (orphans s) h \<noteq> None)"

definition hasReject :: "mempool \<Rightarrow> hash \<Rightarrow> bool" where
  "hasReject s h = (h \<in> set (rejects s))"

text \<open>\<open>exists_p\<close> is the method \<open>exists\<close>.\<close>

definition exists_p :: "env \<Rightarrow> mempool \<Rightarrow> hash \<Rightarrow> bool" where
  "exists_p env s h =
     (if hasPending (chn env) h then True
      else if hasOrphan s h then True
      else hasEntry s h)"

definition hasDepends :: "mempool \<Rightarrow> tx \<Rightarrow> bool" where
  "hasDepends s t = list_ex (\<lambda>prevout. hasEntry s (fst prevout)) (inputs t)"

definition isDoubleSpend :: "mempool \<Rightarrow> tx \<Rightarrow> bool" where
  "isDoubleSpend s t = list_ex (\<lambda>prevout. isSpent s (fst prevout) (snd prevout)) (inputs t)"

section \<open>Tracking entries\<close>

text \<open>
  The methods of the address indices. An assertion that fails throws at its place: what
  was written before it stays written. \<open>forEach\<close> runs a loop body over a list and stops
  at the first error.
\<close>

primrec forEach ::
  "('a \<Rightarrow> 'c \<Rightarrow> (error + unit) \<times> 'c) \<Rightarrow> 'a list \<Rightarrow> 'c \<Rightarrow> (error + unit) \<times> 'c" where
  "forEach f [] c = (Inr (), c)"
| "forEach f (x # xs) c =
     (case f x c of
        (Inl e, c1) \<Rightarrow> (Inl e, c1)
      | (Inr u, c1) \<Rightarrow> forEach f xs c1)"

definition TXIndex_insert_addr :: "hash \<Rightarrow> string \<Rightarrow> tx_index \<Rightarrow> (error + unit) \<times> tx_index" where
  "TXIndex_insert_addr hash addr ti =
     (case ti_index ti addr of
        None \<Rightarrow> (Inr (), ti\<lparr>ti_index := (ti_index ti)(addr \<mapsto> [hash])\<rparr>)
      | Some items \<Rightarrow>
          if hash \<in> set items
          then (Inl (AssertionError ''TXIndex.insert: !items.has(hash)''), ti)
          else (Inr (), ti\<lparr>ti_index := (ti_index ti)(addr \<mapsto> items @ [hash])\<rparr>))"

definition TXIndex_insert :: "tx_index \<Rightarrow> entry \<Rightarrow> view \<Rightarrow> (error + unit) \<times> tx_index" where
  "TXIndex_insert ti entry v =
     (let hash = tx_hash (tx entry); addrs = getHashes (tx entry) v in
      if length addrs = 0 then (Inr (), ti)
      else
        (case forEach (TXIndex_insert_addr hash) addrs ti of
           (Inl e, ti1) \<Rightarrow> (Inl e, ti1)
         | (Inr u, ti1) \<Rightarrow> (Inr (), ti1\<lparr>ti_map := (ti_map ti1)(hash \<mapsto> addrs)\<rparr>)))"

definition TXIndex_remove_addr :: "hash \<Rightarrow> string \<Rightarrow> tx_index \<Rightarrow> (error + unit) \<times> tx_index" where
  "TXIndex_remove_addr hash addr ti =
     (case ti_index ti addr of
        None \<Rightarrow> (Inl (AssertionError ''TXIndex.remove: items''), ti)
      | Some items \<Rightarrow>
          if hash \<notin> set items
          then (Inl (AssertionError ''TXIndex.remove: items.has(hash)''), ti)
          else
            let items1 = removeAll hash items in
            (Inr (), ti\<lparr>ti_index := (if length items1 = 0 then (ti_index ti)(addr := None)
                                      else (ti_index ti)(addr \<mapsto> items1))\<rparr>))"

definition TXIndex_remove :: "tx_index \<Rightarrow> hash \<Rightarrow> (error + unit) \<times> tx_index" where
  "TXIndex_remove ti hash =
     (case ti_map ti hash of
        None \<Rightarrow> (Inr (), ti)
      | Some addrs \<Rightarrow>
          (case forEach (TXIndex_remove_addr hash) addrs ti of
             (Inl e, ti1) \<Rightarrow> (Inl e, ti1)
           | (Inr u, ti1) \<Rightarrow> (Inr (), ti1\<lparr>ti_map := (ti_map ti1)(hash := None)\<rparr>)))"

text \<open>
  \<open>CoinIndex.insert(tx, index)\<close> reads \<open>tx.outputs[index]\<close>: an index past the outputs
  gives \<open>undefined\<close>, and the call of \<open>getHash\<close> on it throws a \<open>TypeError\<close>. An address
  that is \<open>null\<close> or the empty string is a false value.
\<close>

definition CoinIndex_insert :: "tx \<Rightarrow> nat \<Rightarrow> coin_index \<Rightarrow> (error + unit) \<times> coin_index" where
  "CoinIndex_insert t index ci =
     (if index \<ge> length (outputs t)
      then (Inl (OtherError ''TypeError: Cannot read property getHash of undefined''), ci)
      else
        (case outputHash t index of
           None \<Rightarrow> (Inr (), ci)
         | Some addr \<Rightarrow>
             if addr = [] then (Inr (), ci)
             else
               let key = (tx_hash t, index) in
               (case ci_index ci addr of
                  None \<Rightarrow>
                    (Inr (), ci\<lparr>ci_index := (ci_index ci)(addr \<mapsto> [key]),
                                ci_map := (ci_map ci)(key \<mapsto> addr)\<rparr>)
                | Some items \<Rightarrow>
                    if key \<in> set items
                    then (Inl (AssertionError ''CoinIndex.insert: !items.has(key)''), ci)
                    else (Inr (), ci\<lparr>ci_index := (ci_index ci)(addr \<mapsto> items @ [key]),
                                     ci_map := (ci_map ci)(key \<mapsto> addr)\<rparr>))))"

definition CoinIndex_remove :: "outpoint \<Rightarrow> coin_index \<Rightarrow> (error + unit) \<times> coin_index" where
  "CoinIndex_remove key ci =
     (case ci_map ci key of
        None \<Rightarrow> (Inr (), ci)
      | Some addr \<Rightarrow>
          if addr = [] then (Inr (), ci)
          else
            (case ci_index ci addr of
               None \<Rightarrow> (Inl (AssertionError ''CoinIndex.remove: items''), ci)
             | Some items \<Rightarrow>
                 if key \<notin> set items
                 then (Inl (AssertionError ''CoinIndex.remove: items.has(key)''), ci)
                 else
                   let items1 = removeAll key items in
                   (Inr (), ci\<lparr>ci_index := (if length items1 = 0 then (ci_index ci)(addr := None)
                                             else (ci_index ci)(addr \<mapsto> items1)),
                               ci_map := (ci_map ci)(key := None)\<rparr>)))"

definition indexEntry :: "mempool \<Rightarrow> entry \<Rightarrow> view \<Rightarrow> unit result" where
  "indexEntry s entry v =
     (let t = tx entry in
      case TXIndex_insert (txIndex s) entry v of
        (Inl e, ti) \<Rightarrow> (Inl e, s\<lparr>txIndex := ti\<rparr>)
      | (Inr u, ti) \<Rightarrow>
          let s1 = s\<lparr>txIndex := ti\<rparr> in
          (case forEach CoinIndex_remove (inputs t) (coinIndex s1) of
             (Inl e, ci) \<Rightarrow> (Inl e, s1\<lparr>coinIndex := ci\<rparr>)
           | (Inr u, ci) \<Rightarrow>
               (case forEach (CoinIndex_insert t) [0 ..< length (outputs t)] ci of
                  (Inl e, ci1) \<Rightarrow> (Inl e, s1\<lparr>coinIndex := ci1\<rparr>)
                | (Inr u, ci1) \<Rightarrow> (Inr (), s1\<lparr>coinIndex := ci1\<rparr>))))"

text \<open>
  \<open>unindexEntry\<close> looks the parents up with \<open>getTX\<close>, in the pool map from which
  \<open>untrackEntry\<close> has already deleted the entry.
\<close>

definition unindexEntry_input :: "mempool \<Rightarrow> outpoint \<Rightarrow> coin_index \<Rightarrow> (error + unit) \<times> coin_index" where
  "unindexEntry_input s prevout ci =
     (case getTX s (fst prevout) of
        None \<Rightarrow> (Inr (), ci)
      | Some prev \<Rightarrow> CoinIndex_insert prev (snd prevout) ci)"

definition unindexEntry :: "mempool \<Rightarrow> entry \<Rightarrow> unit result" where
  "unindexEntry s entry =
     (let t = tx entry; hash = tx_hash t in
      case TXIndex_remove (txIndex s) hash of
        (Inl e, ti) \<Rightarrow> (Inl e, s\<lparr>txIndex := ti\<rparr>)
      | (Inr u, ti) \<Rightarrow>
          let s1 = s\<lparr>txIndex := ti\<rparr> in
          (case forEach (unindexEntry_input s1) (inputs t) (coinIndex s1) of
             (Inl e, ci) \<Rightarrow> (Inl e, s1\<lparr>coinIndex := ci\<rparr>)
           | (Inr u, ci) \<Rightarrow>
               (case forEach (\<lambda>i. CoinIndex_remove (hash, i)) [0 ..< length (outputs t)] ci of
                  (Inl e, ci1) \<Rightarrow> (Inl e, s1\<lparr>coinIndex := ci1\<rparr>)
                | (Inr u, ci1) \<Rightarrow> (Inr (), s1\<lparr>coinIndex := ci1\<rparr>))))"

text \<open>
  \<open>trackEntry\<close> and \<open>untrackEntry\<close>. An assertion that fails throws at its place: what was
  written before it stays written. The view of \<open>trackEntry\<close> is absent when the caller
  passes none.
\<close>

definition trackEntry :: "env \<Rightarrow> mempool \<Rightarrow> entry \<Rightarrow> view option \<Rightarrow> unit result" where
  "trackEntry env s entry view =
     (let t = tx entry; hash = tx_hash t in
      if map_of (map_p s) hash \<noteq> None
      then (Inl (AssertionError ''trackEntry: map has hash''), s)
      else
        let s1 = s\<lparr>map_p := AList.update hash entry (map_p s)\<rparr> in
        if isCoinbase t
        then (Inl (AssertionError ''trackEntry: coinbase''), s1)
        else
          let s2 = s1\<lparr>spents := foldl (\<lambda>m key. m(key \<mapsto> hash)) (spents s1) (inputs t)\<rparr> in
          (case (case view of
                   Some v \<Rightarrow> if indexAddress (opts env) then indexEntry s2 entry v else (Inr (), s2)
                 | None \<Rightarrow> (Inr (), s2)) of
             (Inl e, s3) \<Rightarrow> (Inl e, s3)
           | (Inr u, s3) \<Rightarrow> (Inr (), s3\<lparr>size_p := size_p s3 + memUsage entry\<rparr>)))"

definition untrackEntry :: "env \<Rightarrow> mempool \<Rightarrow> entry \<Rightarrow> unit result" where
  "untrackEntry env s entry =
     (let t = tx entry; hash = tx_hash t in
      if map_of (map_p s) hash = None
      then (Inl (AssertionError ''untrackEntry: map lacks hash''), s)
      else
        let s1 = s\<lparr>map_p := AList.delete hash (map_p s)\<rparr> in
        if isCoinbase t
        then (Inl (AssertionError ''untrackEntry: coinbase''), s1)
        else
          let s2 = s1\<lparr>spents := foldl (\<lambda>m key. m(key := None)) (spents s1) (inputs t)\<rparr> in
          (case (if indexAddress (opts env) then unindexEntry s2 entry else (Inr (), s2)) of
             (Inl e, s3) \<Rightarrow> (Inl e, s3)
           | (Inr u, s3) \<Rightarrow> (Inr (), s3\<lparr>size_p := size_p s3 - memUsage entry\<rparr>)))"

definition removeEntry :: "env \<Rightarrow> mempool \<Rightarrow> entry \<Rightarrow> unit result" where
  "removeEntry env s entry =
     (case untrackEntry env s entry of
        (Inl e, s1) \<Rightarrow> (Inl e, s1)
      | (Inr u, s1) \<Rightarrow> (Inr (), emit s1 (Ev_remove_entry (hash_e entry))))"

text \<open>
  \<open>reset'\<close> is the method \<open>_reset\<close>. With a persistent cache it wipes the database before
  it sets the tip, and throws when the database fails.
\<close>

definition reset' :: "env \<Rightarrow> mempool \<Rightarrow> unit result" where
  "reset' env s =
     (let s1 = s\<lparr>size_p := 0, waiting := Map.empty, orphans := [], map_p := [],
                 spents := Map.empty,
                 coinIndex := \<lparr>ci_index = Map.empty, ci_map = Map.empty\<rparr>,
                 txIndex := \<lparr>ti_index = Map.empty, ti_map = Map.empty\<rparr>,
                 freeCount := 0, lastTime := 0, rejects := []\<rparr>
      in case (if persistent (opts env) then cache_wipe env s1 else None) of
           Some m \<Rightarrow> (Inl (OtherError m), s1)
         | None \<Rightarrow> (Inr (), s1\<lparr>tip := chain_tip (chn env)\<rparr>))"

section \<open>Ancestor traversal\<close>

text \<open>
  \<open>_countAncestors(entry, set, child, map)\<close> loops over the inputs of \<open>entry\<close> and calls
  itself on each parent it has not seen. \<open>countAncestors'\<close> is that loop on a list of
  inputs, so the call on a parent is the loop on the inputs of the parent. It threads the
  visited set (in insertion order) and the pool, whose entries \<open>map(parent, child)\<close>
  updates in place. A \<open>break\<close> leaves the loop with the set larger than \<open>maxAncestors\<close>,
  so every enclosing loop breaks at its own test as well.
\<close>

function countAncestors' ::
  "int \<Rightarrow> (entry \<Rightarrow> entry \<Rightarrow> entry) \<Rightarrow> entry \<Rightarrow> outpoint list
     \<Rightarrow> hash list \<times> (hash \<times> entry) list \<Rightarrow> hash list \<times> (hash \<times> entry) list"
where
  "countAncestors' mx f child [] (vis, pool) = (vis, pool)"
| "countAncestors' mx f child (prevout # rest) (vis, pool) =
     (let hash = fst prevout in
      case map_of pool hash of
        None \<Rightarrow> countAncestors' mx f child rest (vis, pool)
      | Some parent \<Rightarrow>
          if hash \<in> set vis then countAncestors' mx f child rest (vis, pool)
          else
            let vis1 = vis @ [hash];
                parent1 = f parent child;
                pool1 = AList.update hash parent1 pool
            in if int (length vis1) > mx then (vis1, pool1)
               else
                 let r = countAncestors' mx f child (inputs (tx parent1)) (vis1, pool1)
                 in if int (length (fst r)) > mx then r
                    else countAncestors' mx f child rest r)"
  by pat_completeness auto

definition unvisited :: "hash list \<times> (hash \<times> entry) list \<Rightarrow> nat" where
  "unvisited st = card (fst ` set (snd st) - set (fst st))"

lemma update_present_keys:
  assumes "map_of pool h = Some p"
  shows "fst ` set (AList.update h e pool) = fst ` set pool"
  using assms by (auto simp: dom_update dest: map_of_SomeD intro: rev_image_eqI)

lemma countAncestors'_partial:
  assumes "countAncestors'_dom (mx, f, child, ps, st)"
  shows "fst ` set (snd (countAncestors' mx f child ps st)) = fst ` set (snd st)
       \<and> set (fst st) \<subseteq> set (fst (countAncestors' mx f child ps st))"
  using assms
proof (induction mx f child ps st rule: countAncestors'.pinduct)
  case (1 mx f child vis pool)
  then show ?case by (simp add: countAncestors'.psimps)
next
  case (2 mx f child prevout rest vis pool)
  show ?case
  proof (cases "map_of pool (fst prevout)")
    case None
    with 2 show ?thesis by (simp add: countAncestors'.psimps)
  next
    case (Some parent)
    show ?thesis
    proof (cases "fst prevout \<in> set vis")
      case True
      with Some 2 show ?thesis by (simp add: countAncestors'.psimps)
    next
      case False
      have k: "fst ` set (AList.update (fst prevout) (f parent child) pool) = fst ` set pool"
        using Some by (rule update_present_keys)
      show ?thesis
      proof (cases "int (length (vis @ [fst prevout])) > mx")
        case True
        with 2(1) Some False k show ?thesis
          by (auto simp: countAncestors'.psimps Let_def)
      next
        case F2: False
        let ?r = "countAncestors' mx f child (inputs (tx (f parent child)))
                    (vis @ [fst prevout], AList.update (fst prevout) (f parent child) pool)"
        have ih3: "fst ` set (snd ?r) = fst ` set pool
                 \<and> set (vis @ [fst prevout]) \<subseteq> set (fst ?r)"
          using 2(4) [OF refl Some False refl refl refl F2] k by simp
        show ?thesis
        proof (cases "int (length (fst ?r)) > mx")
          case True
          with 2(1) Some False F2 ih3 show ?thesis
            by (auto simp: countAncestors'.psimps Let_def)
        next
          case F3: False
          have ih4: "fst ` set (snd (countAncestors' mx f child rest ?r)) = fst ` set (snd ?r)
             \<and> set (fst ?r) \<subseteq> set (fst (countAncestors' mx f child rest ?r))"
            using 2(5) [OF refl Some False refl refl refl F2 refl F3] by simp
          with 2(1) Some False F2 F3 ih3 show ?thesis
            by (auto simp: countAncestors'.psimps Let_def)
        qed
      qed
    qed
  qed
qed

lemma unvisited_mono:
  assumes "fst ` set (snd st') = fst ` set (snd st)" "set (fst st) \<subseteq> set (fst st')"
  shows "unvisited st' \<le> unvisited st"
  unfolding unvisited_def using assms
  by (intro card_mono) auto

lemma unvisited_less:
  assumes "map_of pool h = Some p" "h \<notin> set vis"
  shows "unvisited (vis @ [h], AList.update h e pool) < unvisited (vis, pool)"
proof -
  have k: "fst ` set (AList.update h e pool) = fst ` set pool"
    using assms(1) by (rule update_present_keys)
  have hin: "h \<in> fst ` set pool - set vis"
    using assms by (auto dest: map_of_SomeD intro: rev_image_eqI)
  have "fst ` set pool - set (vis @ [h]) = (fst ` set pool - set vis) - {h}"
    by auto
  moreover have "card ((fst ` set pool - set vis) - {h}) < card (fst ` set pool - set vis)"
    using hin by (intro card_Diff1_less) auto
  ultimately show ?thesis
    unfolding unvisited_def using k by simp
qed

termination countAncestors'
proof (relation "measures [\<lambda>(mx, f, child, ps, st). unvisited st,
                           \<lambda>(mx, f, child, ps, st). length ps]", goal_cases)
  case 1
  show ?case by simp
next
  case (2 mx f child prevout rest vis pool x)
  show ?case by simp
next
  case (3 mx f child prevout rest vis pool x x2)
  show ?case by simp
next
  case (4 mx f child prevout rest vis pool x x2 xa xb xc)
  then show ?case using unvisited_less by simp
next
  case (5 mx f child prevout rest vis pool x x2 xa xb xc xd)
  have d: "countAncestors'_dom (mx, f, child, inputs (tx xb), xa, xc)"
    using 5 by simp
  have e: "xd = countAncestors' mx f child (inputs (tx xb)) (xa, xc)"
    using 5 by simp
  have 1: "unvisited xd \<le> unvisited (xa, xc)"
    using countAncestors'_partial [OF d] e by (intro unvisited_mono) auto
  have 2: "unvisited (xa, xc) < unvisited (vis, pool)"
    using 5 unvisited_less by simp
  from 1 2 show ?case by simp
qed

text \<open>
  \<open>updateAncestors(entry, map)\<close> starts the traversal at the inputs of \<open>entry\<close> with an
  empty set and with \<open>entry\<close> as the child; it returns the size of the set.
  \<open>countAncestors\<close> is the same traversal with the callback \<open>nop\<close>.
\<close>

definition updateAncestors ::
  "env \<Rightarrow> mempool \<Rightarrow> entry \<Rightarrow> (entry \<Rightarrow> entry \<Rightarrow> entry) \<Rightarrow> int \<times> mempool" where
  "updateAncestors env s entry f =
     (let r = countAncestors' (maxAncestors (opts env)) f entry (inputs (tx entry)) ([], map_p s)
      in (int (length (fst r)), s\<lparr>map_p := snd r\<rparr>))"

definition countAncestors :: "env \<Rightarrow> mempool \<Rightarrow> entry \<Rightarrow> int" where
  "countAncestors env s entry = fst (updateAncestors env s entry nop)"

section \<open>Eviction\<close>

text \<open>
  \<open>removeSpenders\<close> calls itself on every spender before it removes it; on a spent map with
  a cycle it never returns. The first argument bounds the depth of the recursion, and
  \<open>None\<close> is the run that exceeds it.
\<close>

primrec removeSpenders_loop ::
  "(mempool \<Rightarrow> entry \<Rightarrow> unit result option) \<Rightarrow> env \<Rightarrow> hash \<Rightarrow> nat list \<Rightarrow> mempool
     \<Rightarrow> unit result option"
where
  "removeSpenders_loop rec env hash [] s = Some (Inr (), s)"
| "removeSpenders_loop rec env hash (i # rest) s =
     (case getSpent s hash i of
        None \<Rightarrow> removeSpenders_loop rec env hash rest s
      | Some spender \<Rightarrow>
          (case rec s spender of
             None \<Rightarrow> None
           | Some (Inl e, s1) \<Rightarrow> Some (Inl e, s1)
           | Some (Inr u, s1) \<Rightarrow>
               (case removeEntry env s1 spender of
                  (Inl e, s2) \<Rightarrow> Some (Inl e, s2)
                | (Inr u, s2) \<Rightarrow> removeSpenders_loop rec env hash rest s2)))"

fun removeSpenders :: "nat \<Rightarrow> env \<Rightarrow> mempool \<Rightarrow> entry \<Rightarrow> unit result option" where
  "removeSpenders 0 env s entry = None"
| "removeSpenders (Suc n) env s entry =
     removeSpenders_loop (removeSpenders n env) env (hash_e entry)
       [0 ..< length (outputs (tx entry))] s"

definition evictEntry :: "nat \<Rightarrow> env \<Rightarrow> mempool \<Rightarrow> entry \<Rightarrow> unit result option" where
  "evictEntry n env s entry =
     (case removeSpenders n env s entry of
        None \<Rightarrow> None
      | Some (Inl e, s1) \<Rightarrow> Some (Inl e, s1)
      | Some (Inr u, s1) \<Rightarrow>
          Some (removeEntry env (snd (updateAncestors env s1 entry removeFee)) entry))"

text \<open>
  Modelled from the spec: the class \<open>Heap\<close> (utils/heap.js), which is not part of the
  sources at hand, a priority queue keyed by the comparator it is given: \<open>insert\<close> keeps
  the queue ordered by the comparator and \<open>shift\<close> takes the first element, a least one.
\<close>

primrec heap_insert :: "entry \<Rightarrow> entry list \<Rightarrow> entry list" where
  "heap_insert e [] = [e]"
| "heap_insert e (x # xs) = (if cmpRate e x < 0 then e # x # xs else x # heap_insert e xs)"

text \<open>
  The first loop of \<open>limitSize\<close> walks \<open>map.values()\<close> while it deletes from the map: the
  iterator of a \<open>Map\<close> skips an entry deleted before its turn. The model walks the keys the
  map had at the start and skips a key that is gone.
\<close>

primrec limitSize_expire ::
  "nat \<Rightarrow> env \<Rightarrow> hash list \<Rightarrow> entry list \<Rightarrow> mempool \<Rightarrow> (entry list) result option"
where
  "limitSize_expire n env [] queue s = Some (Inr queue, s)"
| "limitSize_expire n env (k # ks) queue s =
     (case getEntry s k of
        None \<Rightarrow> limitSize_expire n env ks queue s
      | Some entry \<Rightarrow>
          if hasDepends s (tx entry) then limitSize_expire n env ks queue s
          else if now env < time entry + expiryTime (opts env)
          then limitSize_expire n env ks (heap_insert entry queue) s
          else
            (case evictEntry n env s entry of
               None \<Rightarrow> None
             | Some (Inl e, s1) \<Rightarrow> Some (Inl e, s1)
             | Some (Inr u, s1) \<Rightarrow> limitSize_expire n env ks queue s1))"

primrec limitSize_shift ::
  "nat \<Rightarrow> env \<Rightarrow> real \<Rightarrow> entry list \<Rightarrow> mempool \<Rightarrow> unit result option"
where
  "limitSize_shift n env threshold [] s = Some (Inr (), s)"
| "limitSize_shift n env threshold (entry # queue) s =
     (if \<not> hasEntry s (hash_e entry)
      then Some (Inl (AssertionError ''limitSize: hasEntry(hash)''), s)
      else
        (case evictEntry n env s entry of
           None \<Rightarrow> None
         | Some (Inl e, s1) \<Rightarrow> Some (Inl e, s1)
         | Some (Inr u, s1) \<Rightarrow>
             if of_int (size_p s1) \<le> threshold then Some (Inr (), s1)
             else limitSize_shift n env threshold queue s1))"

definition limitSize :: "nat \<Rightarrow> env \<Rightarrow> mempool \<Rightarrow> hash \<Rightarrow> bool result option" where
  "limitSize n env s added =
     (let maxSize = maxSize (opts env) in
      if size_p s \<le> maxSize then Some (Inr False, s)
      else
        let threshold = of_int maxSize - of_int maxSize / (10 :: real) in
        (case limitSize_expire n env (map fst (map_p s)) [] s of
           None \<Rightarrow> None
         | Some (Inl e, s1) \<Rightarrow> Some (Inl e, s1)
         | Some (Inr queue, s1) \<Rightarrow>
             if of_int (size_p s1) \<le> threshold then Some (Inr (\<not> hasEntry s1 added), s1)
             else
               (case limitSize_shift n env threshold queue s1 of
                  None \<Rightarrow> None
                | Some (Inl e, s2) \<Rightarrow> Some (Inl e, s2)
                | Some (Inr u, s2) \<Rightarrow> Some (Inr (\<not> hasEntry s2 added), s2))))"

section \<open>Orphans\<close>

text \<open>
  Modelled from the spec: \<open>TX.getPrevout\<close> (primitives/tx.js, not part of the sources at
  hand), the set of the parent hashes of a transaction: the hashes of the prevouts, each
  once, in the order of their first input.
\<close>

primrec uniq :: "hash list \<Rightarrow> hash list \<Rightarrow> hash list" where
  "uniq seen [] = seen"
| "uniq seen (h # hs) = (if h \<in> set seen then uniq seen hs else uniq (seen @ [h]) hs)"

definition getPrevout :: "tx \<Rightarrow> hash list" where
  "getPrevout t = uniq [] (map fst (inputs t))"

primrec removeOrphan_loop :: "hash \<Rightarrow> hash list \<Rightarrow> mempool \<Rightarrow> unit result" where
  "removeOrphan_loop hash [] s = (Inr (), s)"
| "removeOrphan_loop hash (prev # rest) s =
     (case waiting s prev of
        None \<Rightarrow> removeOrphan_loop hash rest s
      | Some st \<Rightarrow>
          if hash \<notin> set st
          then (Inl (AssertionError ''removeOrphan: set.has(hash)''), s)
          else
            let st1 = removeAll hash st;
                s1 = s\<lparr>waiting := (waiting s)(prev \<mapsto> st1)\<rparr>;
                s2 = (if length st1 = 0 then s1\<lparr>waiting := (waiting s1)(prev := None)\<rparr> else s1)
            in removeOrphan_loop hash rest s2)"

definition removeOrphan :: "mempool \<Rightarrow> hash \<Rightarrow> bool result" where
  "removeOrphan s hash =
     (case getOrphan s hash of
        None \<Rightarrow> (Inr False, s)
      | Some orphan \<Rightarrow>
          (case raw orphan of
             None \<Rightarrow> (Inr False, s\<lparr>orphans := AList.delete hash (orphans s)\<rparr>)
           | Some t \<Rightarrow>
               (case removeOrphan_loop hash (getPrevout t) s of
                  (Inl e, s1) \<Rightarrow> (Inl e, s1)
                | (Inr u, s1) \<Rightarrow>
                    (Inr True,
                     emit (s1\<lparr>orphans := AList.delete hash (orphans s1)\<rparr>)
                       (Ev_remove_orphan (tx_hash t))))))"

text \<open>
  The loop of \<open>limitOrphans\<close> stops at the key with the drawn index, or at the last key.
\<close>

fun pick :: "hash list \<Rightarrow> nat \<Rightarrow> hash option" where
  "pick [] index = None"
| "pick [k] index = Some k"
| "pick (k # k' # ks) index = (if index = 0 then Some k else pick (k' # ks) (index - 1))"

definition limitOrphans :: "env \<Rightarrow> mempool \<Rightarrow> bool result" where
  "limitOrphans env s =
     (if int (length (orphans s)) < maxOrphans (opts env) then (Inr False, s)
      else
        let index = randomRange env 0 (length (orphans s)) in
        case pick (map fst (orphans s)) index of
          None \<Rightarrow> (Inl (AssertionError ''limitOrphans: hash''), s)
        | Some hash \<Rightarrow>
            (case removeOrphan s hash of
               (Inl e, s1) \<Rightarrow> (Inl e, s1)
             | (Inr b, s1) \<Rightarrow> (Inr True, s1)))"

text \<open>
  \<open>maybeOrphan\<close>. The first loop either gives up (\<open>None\<close>: a parent is in the reject filter,
  or is in the pool without the output) or collects the hashes of the missing parents.
  The result \<open>None\<close> of \<open>maybeOrphan\<close> is \<open>null\<close>, and \<open>Some ms\<close> is the array
  \<open>missing\<close> (here \<open>ms\<close>), which is empty on every path that drops the transaction.
\<close>

primrec maybeOrphan_scan :: "mempool \<Rightarrow> view \<Rightarrow> outpoint list \<Rightarrow> hash list \<Rightarrow> hash list option" where
  "maybeOrphan_scan s v [] hashes = Some hashes"
| "maybeOrphan_scan s v (prevout # rest) hashes =
     (if v prevout \<noteq> None then maybeOrphan_scan s v rest hashes
      else if hasReject s (fst prevout) then None
      else if hasEntry s (fst prevout) then None
      else maybeOrphan_scan s v rest
             (if fst prevout \<in> set hashes then hashes else hashes @ [fst prevout]))"

primrec maybeOrphan_wait :: "hash \<Rightarrow> hash list \<Rightarrow> mempool \<Rightarrow> mempool" where
  "maybeOrphan_wait hash [] s = s"
| "maybeOrphan_wait hash (prev # rest) s =
     (let st = (case waiting s prev of None \<Rightarrow> [] | Some st \<Rightarrow> st);
          st1 = (if hash \<in> set st then st else st @ [hash])
      in maybeOrphan_wait hash rest (s\<lparr>waiting := (waiting s)(prev \<mapsto> st1)\<rparr>))"

definition maybeOrphan :: "env \<Rightarrow> mempool \<Rightarrow> tx \<Rightarrow> view \<Rightarrow> int \<Rightarrow> (hash list option) result" where
  "maybeOrphan env s t v i =
     (case maybeOrphan_scan s v (inputs t) [] of
        None \<Rightarrow> (Inr (Some []), s\<lparr>rejects := rejects s @ [tx_hash t]\<rparr>)
      | Some hashes \<Rightarrow>
          if length hashes = 0 then (Inr None, s)
          else if getWeight t > MAX_TX_WEIGHT (pol env)
          then (Inr (Some []),
                if \<not> hasWitness t then s\<lparr>rejects := rejects s @ [tx_hash t]\<rparr> else s)
          else if maxOrphans (opts env) = 0 then (Inr (Some []), s)
          else
            (case limitOrphans env s of
               (Inl e, s1) \<Rightarrow> (Inl e, s1)
             | (Inr b, s1) \<Rightarrow>
                 let s2 = maybeOrphan_wait (tx_hash t) hashes s1;
                     ms = hashes;
                     s3 = s2\<lparr>orphans := AList.update (tx_hash t)
                                (newOrphan t (int (length ms)) i) (orphans s2)\<rparr>
                 in (Inr (Some ms), emit s3 (Ev_add_orphan (tx_hash t)))))"

primrec resolveOrphans_loop ::
  "hash list \<Rightarrow> orphan list \<Rightarrow> mempool \<Rightarrow> (orphan list) result" where
  "resolveOrphans_loop [] resolved s = (Inr resolved, s)"
| "resolveOrphans_loop (hash # rest) resolved s =
     (case getOrphan s hash of
        None \<Rightarrow> (Inl (AssertionError ''resolveOrphans: orphan''), s)
      | Some orphan \<Rightarrow>
          let orphan1 = orphan\<lparr>missing := missing orphan - 1\<rparr>;
              s1 = s\<lparr>orphans := AList.update hash orphan1 (orphans s)\<rparr>
          in if missing orphan1 = 0
             then resolveOrphans_loop rest (resolved @ [orphan1])
                    (s1\<lparr>orphans := AList.delete hash (orphans s1)\<rparr>)
             else resolveOrphans_loop rest resolved s1)"

definition resolveOrphans :: "mempool \<Rightarrow> tx \<Rightarrow> (orphan list) result" where
  "resolveOrphans s parent =
     (let hash = tx_hash parent in
      case waiting s hash of
        None \<Rightarrow> (Inr [], s)
      | Some st \<Rightarrow>
          if \<not> length st > 0 then (Inl (AssertionError ''resolveOrphans: set.size > 0''), s)
          else
            (case resolveOrphans_loop st [] s of
               (Inl e, s1) \<Rightarrow> (Inl e, s1)
             | (Inr resolved, s1) \<Rightarrow>
                 (Inr resolved, s1\<lparr>waiting := (waiting s1)(hash := None)\<rparr>)))"

text \<open>
  \<open>handleOrphans\<close> replays every resolved orphan through \<open>insertTX\<close>, here the parameter
  \<open>ins\<close>. A \<open>VerifyError\<close> is caught; any other error is thrown again.
\<close>

primrec handleOrphans_loop ::
  "(mempool \<Rightarrow> tx \<Rightarrow> int \<Rightarrow> (hash list option) result option) \<Rightarrow> orphan list \<Rightarrow> mempool
     \<Rightarrow> unit result option"
where
  "handleOrphans_loop ins [] s = Some (Inr (), s)"
| "handleOrphans_loop ins (orphan # rest) s =
     (case raw orphan of
        None \<Rightarrow> handleOrphans_loop ins rest s
      | Some t \<Rightarrow>
          (case ins s t (id_o orphan) of
             None \<Rightarrow> None
           | Some (Inl err, s1) \<Rightarrow>
               (case err of
                  VerifyError ve \<Rightarrow>
                    let s2 = (if \<not> hasWitness t \<and> \<not> malleated ve
                              then s1\<lparr>rejects := rejects s1 @ [tx_hash t]\<rparr> else s1)
                    in handleOrphans_loop ins rest (emit s2 (Ev_bad_orphan err (id_o orphan)))
                | AssertionError m \<Rightarrow> Some (Inl err, s1)
                | OtherError m \<Rightarrow> Some (Inl err, s1))
           | Some (Inr res, s1) \<Rightarrow>
               (case res of
                  None \<Rightarrow> handleOrphans_loop ins rest s1
                | Some ms \<Rightarrow>
                    if length ms > 0
                    then (case removeOrphan s1 (tx_hash t) of
                            (Inl e, s2) \<Rightarrow> Some (Inl e, s2)
                          | (Inr b, s2) \<Rightarrow> handleOrphans_loop ins rest s2)
                    else handleOrphans_loop ins rest s1)))"

definition handleOrphans ::
  "(mempool \<Rightarrow> tx \<Rightarrow> int \<Rightarrow> (hash list option) result option) \<Rightarrow> mempool \<Rightarrow> tx
     \<Rightarrow> unit result option" where
  "handleOrphans ins s parent =
     (case resolveOrphans s parent of
        (Inl e, s1) \<Rightarrow> Some (Inl e, s1)
      | (Inr resolved, s1) \<Rightarrow> handleOrphans_loop ins resolved s1)"

section \<open>Admission\<close>

primrec getCoinView_loop :: "env \<Rightarrow> mempool \<Rightarrow> outpoint list \<Rightarrow> view \<Rightarrow> error + view" where
  "getCoinView_loop env s [] v = Inr v"
| "getCoinView_loop env s (prevout # rest) v =
     (case getTX s (fst prevout) of
        Some t \<Rightarrow>
          if snd prevout < length (outputs t)
          then getCoinView_loop env s rest (v(prevout \<mapsto> outputs t ! snd prevout))
          else getCoinView_loop env s rest v
      | None \<Rightarrow>
          (case chain_readCoin (chn env) prevout of
             Inl m \<Rightarrow> Inl (OtherError m)
           | Inr None \<Rightarrow> getCoinView_loop env s rest v
           | Inr (Some coin) \<Rightarrow> getCoinView_loop env s rest (v(prevout \<mapsto> coin))))"

definition getCoinView :: "env \<Rightarrow> mempool \<Rightarrow> tx \<Rightarrow> error + view" where
  "getCoinView env s t = getCoinView_loop env s (inputs t) Map.empty"

text \<open>
  Modelled from the spec: \<open>MempoolEntry.fromTX(tx, view, height)\<close> (mempool/mempoolentry.js
  is not part of the sources at hand). The entry records the height it is given, the time
  of its creation, the fee and size of the transaction, and starts with \<open>deltaFee\<close> and
  \<open>descFee\<close> at its own fee and \<open>descSize\<close> at its own size.
\<close>

definition fromTX :: "env \<Rightarrow> tx \<Rightarrow> view \<Rightarrow> int \<Rightarrow> entry" where
  "fromTX env t v h =
     \<lparr>tx = t, height = h, size_e = vsize t, sigops = sigopsCost t,
      priority = getPriority env t v h, fee = getFee env t v, deltaFee = getFee env t v,
      time = now env, descFee = getFee env t v, descSize = vsize t\<rparr>"

definition verifyInputs :: "env \<Rightarrow> tx \<Rightarrow> view \<Rightarrow> 32 word \<Rightarrow> error + unit" where
  "verifyInputs env t v flags =
     (case verifyAsync env t v flags of
        Inl m \<Rightarrow> Inl (OtherError m)
      | Inr True \<Rightarrow> Inr ()
      | Inr False \<Rightarrow>
          let mandatory = Inl (newVerifyError t ''nonstandard'' ''mandatory-script-verify-flag'' 100 False)
          in if flags AND ONLY_STANDARD_VERIFY_FLAGS (pol env) \<noteq> 0
             then (case verifyAsync env t v (flags AND NOT (ONLY_STANDARD_VERIFY_FLAGS (pol env))) of
                     Inl m \<Rightarrow> Inl (OtherError m)
                   | Inr True \<Rightarrow>
                       Inl (newVerifyError t ''nonstandard'' ''non-mandatory-script-verify-flag'' 0 False)
                   | Inr False \<Rightarrow> mandatory)
             else mandatory)"

definition verifyResult :: "env \<Rightarrow> tx \<Rightarrow> view \<Rightarrow> 32 word \<Rightarrow> error + bool" where
  "verifyResult env t v flags =
     (case verifyInputs env t v flags of
        Inl (VerifyError ve) \<Rightarrow> Inr False
      | Inl (AssertionError m) \<Rightarrow> Inl (AssertionError m)
      | Inl (OtherError m) \<Rightarrow> Inl (OtherError m)
      | Inr u \<Rightarrow> Inr True)"

text \<open>The script checks at the end of \<open>verify\<close>.\<close>

definition verify_scripts :: "env \<Rightarrow> tx \<Rightarrow> view \<Rightarrow> error + unit" where
  "verify_scripts env t v =
     (let flags = STANDARD_VERIFY_FLAGS (pol env) in
      case verifyInputs env t v flags of
        Inr u \<Rightarrow>
          if paranoidChecks (opts env)
          then (case verifyResult env t v (MANDATORY_VERIFY_FLAGS (pol env)) of
                  Inl e \<Rightarrow> Inl e
                | Inr True \<Rightarrow> Inr ()
                | Inr False \<Rightarrow>
                    Inl (AssertionError ''BUG: Verify failed for mandatory but not standard.''))
          else Inr ()
      | Inl err \<Rightarrow>
          if hasWitness t then Inl err
          else
            let flags1 = (flags AND NOT (VERIFY_WITNESS (pol env)))
                           AND NOT (VERIFY_CLEANSTACK (pol env))
            in (case verifyResult env t v flags1 of
                  Inl e \<Rightarrow> Inl e
                | Inr False \<Rightarrow> Inl err
                | Inr True \<Rightarrow>
                    (case verifyResult env t v (flags1 OR VERIFY_CLEANSTACK (pol env)) of
                       Inl e \<Rightarrow> Inl e
                     | Inr True \<Rightarrow> Inl err
                     | Inr False \<Rightarrow>
                         (case err of
                            VerifyError ve \<Rightarrow> Inl (VerifyError (ve\<lparr>malleated := True\<rparr>))
                          | AssertionError m \<Rightarrow> Inl err
                          | OtherError m \<Rightarrow> Inl err))))"

text \<open>
  \<open>verify\<close>, the contextual checks. The free-relay counter decays by \<open>(1 - 1/600)\<close> per
  second; it is kept as an exact real number.
\<close>

definition verify :: "env \<Rightarrow> mempool \<Rightarrow> entry \<Rightarrow> view \<Rightarrow> unit result" where
  "verify env s entry v =
     (let height = chain_height (chn env) + 1; t = tx entry in
      case chain_verifyLocks (chn env) t v of
        Inl m \<Rightarrow> (Inl (OtherError m), s)
      | Inr False \<Rightarrow> (Inl (newVerifyError t ''nonstandard'' ''non-BIP68-final'' 0 False), s)
      | Inr True \<Rightarrow>
      if requireStandard (opts env) \<and> \<not> hasStandardInputs env t v
      then (Inl (newVerifyError t ''nonstandard'' ''bad-txns-nonstandard-inputs'' 0 False), s)
      else if requireStandard (opts env) \<and> chain_hasWitness (chn env) \<and> \<not> hasStandardWitness env t v
      then (Inl (newVerifyError t ''nonstandard'' ''bad-witness-nonstandard'' 0 True), s)
      else if sigops entry > MAX_TX_SIGOPS_COST (pol env)
      then (Inl (newVerifyError t ''nonstandard'' ''bad-txns-too-many-sigops'' 0 False), s)
      else
        let minFee = getMinFee (pol env) (size_e entry) (minRelay (opts env)) in
        if relayPriority (opts env) \<and> fee entry < minFee \<and> \<not> isFree env entry height
        then (Inl (newVerifyError t ''insufficientfee'' ''insufficient priority'' 0 False), s)
        else
          let limited = (limitFree (opts env) \<and> fee entry < minFee);
              s1 = (if limited
                    then s\<lparr>freeCount := freeCount s * ((1 - 1 / 600) powi (now env - lastTime s)),
                           lastTime := now env\<rparr>
                    else s)
          in if limited \<and> freeCount s1 > of_int (limitFreeRelay (opts env) * 10 * 1000)
             then (Inl (newVerifyError t ''insufficientfee'' ''rate limited free transaction'' 0 False), s1)
             else
               let s2 = (if limited then s1\<lparr>freeCount := freeCount s1 + of_int (size_e entry)\<rparr>
                         else s1)
               in if rejectAbsurdFees (opts env) \<and> fee entry > minFee * 10000
                  then (Inl (newVerifyError t ''highfee'' ''absurdly-high-fee'' 0 False), s2)
                  else if countAncestors env s2 entry + 1 > maxAncestors (opts env)
                  then (Inl (newVerifyError t ''nonstandard'' ''too-long-mempool-chain'' 0 False), s2)
                  else
                    (case checkInputs env t v height of
                       (fee1, reason, score) \<Rightarrow>
                         if fee1 = - 1
                         then (Inl (newVerifyError t ''invalid'' reason score False), s2)
                         else
                           (case verify_scripts env t v of
                              Inl e \<Rightarrow> (Inl e, s2)
                            | Inr u \<Rightarrow> (Inr (), s2))))"

definition addEntry ::
  "(mempool \<Rightarrow> tx \<Rightarrow> int \<Rightarrow> (hash list option) result option) \<Rightarrow> env \<Rightarrow> mempool \<Rightarrow> entry
     \<Rightarrow> view \<Rightarrow> unit result option" where
  "addEntry ins env s entry v =
     (case trackEntry env s entry (Some v) of
        (Inl e, s1) \<Rightarrow> Some (Inl e, s1)
      | (Inr u, s1) \<Rightarrow>
          let s2 = snd (updateAncestors env s1 entry addFee);
              s3 = emit s2 (Ev_tx (hash_e entry));
              s4 = emit s3 (Ev_add_entry (hash_e entry))
          in handleOrphans ins s4 (tx entry))"

text \<open>
  \<open>insertTX\<close>, in the order of the source. \<open>insertTX_sanity\<close> holds the checks that read
  the transaction and the options only (sanity, coinbase, version 2 before CSV, witness
  before segwit, standardness, replace-by-fee); \<open>insertTX_known\<close> the checks of finality
  and of known transactions; \<open>insertTX_admit\<close> the end of the method, from the creation of
  the entry on. None of the first two writes the state; each returns the error it throws.
\<close>

definition insertTX_sanity :: "env \<Rightarrow> tx \<Rightarrow> error option" where
  "insertTX_sanity env t =
     (case checkSanity t of
        Some (reason, score) \<Rightarrow> Some (newVerifyError t ''invalid'' reason score False)
      | None \<Rightarrow>
        if isCoinbase t
        then Some (newVerifyError t ''invalid'' ''coinbase'' 100 False)
        else if requireStandard (opts env) \<and> \<not> hasCSV (chn env) \<and> version t \<ge> 2
        then Some (newVerifyError t ''nonstandard'' ''premature-version2-tx'' 0 False)
        else if \<not> chain_hasWitness (chn env) \<and> \<not> prematureWitness (opts env) \<and> hasWitness t
        then Some (newVerifyError t ''nonstandard'' ''no-witness-yet'' 0 True)
        else
          (case (if requireStandard (opts env) then checkStandard t else None) of
             Some (reason, score) \<Rightarrow> Some (newVerifyError t ''nonstandard'' reason score False)
           | None \<Rightarrow>
               if requireStandard (opts env) \<and> \<not> replaceByFee (opts env) \<and> isRBF t
               then Some (newVerifyError t ''nonstandard'' ''replace-by-fee'' 0 False)
               else None))"

definition insertTX_known :: "env \<Rightarrow> mempool \<Rightarrow> tx \<Rightarrow> error option" where
  "insertTX_known env s t =
     (case chain_verifyFinal (chn env) t of
        Inl m \<Rightarrow> Some (OtherError m)
      | Inr False \<Rightarrow> Some (newVerifyError t ''nonstandard'' ''non-final'' 0 False)
      | Inr True \<Rightarrow>
          if exists_p env s (tx_hash t)
          then Some (newVerifyError t ''alreadyknown'' ''txn-already-in-mempool'' 0 False)
          else
            (case chain_hasCoins (chn env) t of
               Inl m \<Rightarrow> Some (OtherError m)
             | Inr True \<Rightarrow> Some (newVerifyError t ''alreadyknown'' ''txn-already-known'' 0 False)
             | Inr False \<Rightarrow> None))"

definition insertTX_admit ::
  "(mempool \<Rightarrow> tx \<Rightarrow> int \<Rightarrow> (hash list option) result option) \<Rightarrow> nat \<Rightarrow> env \<Rightarrow> mempool \<Rightarrow> tx
     \<Rightarrow> view \<Rightarrow> (hash list option) result option" where
  "insertTX_admit ins n env s t v =
     (let entry = fromTX env t v (chain_height (chn env)) in
      case verify env s entry v of
        (Inl e, s2) \<Rightarrow> Some (Inl e, s2)
      | (Inr u, s2) \<Rightarrow>
          (case addEntry ins env s2 entry v of
             None \<Rightarrow> None
           | Some (Inl e, s3) \<Rightarrow> Some (Inl e, s3)
           | Some (Inr u, s3) \<Rightarrow>
               (case limitSize n env s3 (tx_hash t) of
                  None \<Rightarrow> None
                | Some (Inl e, s4) \<Rightarrow> Some (Inl e, s4)
                | Some (Inr full, s4) \<Rightarrow>
                    if full
                    then Some (Inl (newVerifyError t ''insufficientfee'' ''mempool full'' 0 False), s4)
                    else Some (Inr None, s4))))"

text \<open>
  \<open>insertTX_body\<close> is the body of the method; its first argument stands for the calls of
  \<open>insertTX\<close> that \<open>handleOrphans\<close> makes, its second bounds the recursion of the
  evictions. \<open>insertTX\<close> bounds the depth of the replays: \<open>None\<close> is the run that exceeds
  the bound. An array is a true value even when empty: \<open>if (missing) return missing\<close>
  returns every array, and goes on only for \<open>null\<close>.
\<close>

definition insertTX_body ::
  "(mempool \<Rightarrow> tx \<Rightarrow> int \<Rightarrow> (hash list option) result option) \<Rightarrow> nat \<Rightarrow> env \<Rightarrow> mempool \<Rightarrow> tx
     \<Rightarrow> int \<Rightarrow> (hash list option) result option" where
  "insertTX_body ins n env s t i =
     (if mutable t then Some (Inl (AssertionError ''Cannot add mutable TX to mempool.''), s)
      else
        (case insertTX_sanity env t of
           Some err \<Rightarrow> Some (Inl err, s)
         | None \<Rightarrow>
             (case insertTX_known env s t of
                Some err \<Rightarrow> Some (Inl err, s)
              | None \<Rightarrow>
                  if isDoubleSpend s t
                  then Some (Inl (newVerifyError t ''duplicate'' ''bad-txns-inputs-spent'' 0 False),
                             emit s (Ev_conflict (tx_hash t)))
                  else
                    (case getCoinView env s t of
                       Inl e \<Rightarrow> Some (Inl e, s)
                     | Inr v \<Rightarrow>
                         (case maybeOrphan env s t v i of
                            (Inl e, s1) \<Rightarrow> Some (Inl e, s1)
                          | (Inr (Some ms), s1) \<Rightarrow> Some (Inr (Some ms), s1)
                          | (Inr None, s1) \<Rightarrow> insertTX_admit ins n env s1 t v)))))"

fun insertTX ::
  "nat \<Rightarrow> env \<Rightarrow> mempool \<Rightarrow> tx \<Rightarrow> int \<Rightarrow> (hash list option) result option" where
  "insertTX 0 env s t i = None"
| "insertTX (Suc n) env s t i = insertTX_body (insertTX n env) n env s t i"

text \<open>
  \<open>addTX'\<close> is the method \<open>_addTX\<close>; an absent \<open>id\<close> is \<open>None\<close>. A flush of the cache
  that succeeds leaves no trace in the state but the time of the last flush; one that
  fails throws before that time is written.
\<close>

definition addTX' ::
  "nat \<Rightarrow> env \<Rightarrow> mempool \<Rightarrow> tx \<Rightarrow> int option \<Rightarrow> (hash list option) result option" where
  "addTX' n env s t i =
     (let i1 = (case i of None \<Rightarrow> - 1 | Some j \<Rightarrow> j) in
      case insertTX n env s t i1 of
        None \<Rightarrow> None
      | Some (Inl err, s1) \<Rightarrow>
          (case err of
             VerifyError ve \<Rightarrow>
               Some (Inl err,
                     if \<not> hasWitness t \<and> \<not> malleated ve
                     then s1\<lparr>rejects := rejects s1 @ [tx_hash t]\<rparr> else s1)
           | AssertionError m \<Rightarrow> Some (Inl err, s1)
           | OtherError m \<Rightarrow> Some (Inl err, s1))
      | Some (Inr res, s1) \<Rightarrow>
          if now env - lastFlush s1 > 10
          then (case cache_flush env s1 of
                  Some e \<Rightarrow> Some (Inl e, s1)
                | None \<Rightarrow> Some (Inr res, s1\<lparr>lastFlush := now env\<rparr>))
          else Some (Inr res, s1))"

section \<open>Blocks\<close>

record block =
  block_hash :: hash
  prevBlock :: hash
  block_height :: int

primrec removeDoubleSpends_loop ::
  "nat \<Rightarrow> env \<Rightarrow> outpoint list \<Rightarrow> mempool \<Rightarrow> unit result option" where
  "removeDoubleSpends_loop n env [] s = Some (Inr (), s)"
| "removeDoubleSpends_loop n env (prevout # rest) s =
     (case getSpent s (fst prevout) (snd prevout) of
        None \<Rightarrow> removeDoubleSpends_loop n env rest s
      | Some spent \<Rightarrow>
          (case evictEntry n env s spent of
             None \<Rightarrow> None
           | Some (Inl e, s1) \<Rightarrow> Some (Inl e, s1)
           | Some (Inr u, s1) \<Rightarrow>
               removeDoubleSpends_loop n env rest (emit s1 (Ev_double_spend (hash_e spent)))))"

definition removeDoubleSpends :: "nat \<Rightarrow> env \<Rightarrow> mempool \<Rightarrow> tx \<Rightarrow> unit result option" where
  "removeDoubleSpends n env s t = removeDoubleSpends_loop n env (inputs t) s"

text \<open>
  \<open>addBlock'\<close> is the method \<open>_addBlock\<close>. Its loop runs over \<open>txs[length - 1]\<close> down to
  \<open>txs[1]\<close>.
\<close>

primrec addBlock_loop :: "nat \<Rightarrow> env \<Rightarrow> block \<Rightarrow> tx list \<Rightarrow> mempool \<Rightarrow> unit result option" where
  "addBlock_loop n env b [] s = Some (Inr (), s)"
| "addBlock_loop n env b (t # rest) s =
     (let hash = tx_hash t in
      case getEntry s hash of
        None \<Rightarrow>
          (case removeOrphan s hash of
             (Inl e, s1) \<Rightarrow> Some (Inl e, s1)
           | (Inr r, s1) \<Rightarrow>
               (case removeDoubleSpends n env s1 t of
                  None \<Rightarrow> None
                | Some (Inl e, s2) \<Rightarrow> Some (Inl e, s2)
                | Some (Inr u, s2) \<Rightarrow>
                    if waiting s2 hash \<noteq> None
                    then (case handleOrphans (\<lambda>s' t' i'. insertTX n env s' t' i') s2 t of
                            None \<Rightarrow> None
                          | Some (Inl e, s3) \<Rightarrow> Some (Inl e, s3)
                          | Some (Inr u, s3) \<Rightarrow> addBlock_loop n env b rest s3)
                    else addBlock_loop n env b rest s2))
      | Some entry \<Rightarrow>
          (case removeEntry env s entry of
             (Inl e, s1) \<Rightarrow> Some (Inl e, s1)
           | (Inr u, s1) \<Rightarrow>
               addBlock_loop n env b rest (emit s1 (Ev_confirmed hash (block_hash b)))))"

definition addBlock' :: "nat \<Rightarrow> env \<Rightarrow> mempool \<Rightarrow> block \<Rightarrow> tx list \<Rightarrow> unit result option" where
  "addBlock' n env s b txs =
     (if length (map_p s) = 0 then Some (Inr (), s\<lparr>tip := block_hash b\<rparr>)
      else
        (case addBlock_loop n env b (rev (tl txs)) s of
           None \<Rightarrow> None
         | Some (Inl e, s1) \<Rightarrow> Some (Inl e, s1)
         | Some (Inr u, s1) \<Rightarrow>
             let s2 = s1\<lparr>rejects := []\<rparr> in
             (case cache_flush env s2 of
                Some e \<Rightarrow> Some (Inl e, s2)
              | None \<Rightarrow> Some (Inr (), s2\<lparr>tip := block_hash b\<rparr>))))"

text \<open>
  \<open>removeBlock'\<close> is the method \<open>_removeBlock\<close>. Its \<open>catch\<close> takes every error that
  \<open>insertTX\<close> throws and hands it to \<open>emit('error', e)\<close>: with a listener of \<open>error\<close>
  the loop goes on, and without one \<open>emit\<close> throws the error out of the \<open>catch\<close> and out
  of the method. After the loop the cache is flushed before the tip is set.
\<close>

primrec removeBlock_loop :: "nat \<Rightarrow> env \<Rightarrow> block \<Rightarrow> tx list \<Rightarrow> mempool \<Rightarrow> unit result option" where
  "removeBlock_loop n env b [] s = Some (Inr (), s)"
| "removeBlock_loop n env b (t # rest) s =
     (let hash = tx_hash t in
      if hasEntry s hash then removeBlock_loop n env b rest s
      else
        (case insertTX n env s t (- 1) of
           None \<Rightarrow> None
         | Some (Inl e, s1) \<Rightarrow>
             (case emit_error env s1 e of
                (Inl e1, s2) \<Rightarrow> Some (Inl e1, s2)
              | (Inr u, s2) \<Rightarrow> removeBlock_loop n env b rest s2)
         | Some (Inr res, s1) \<Rightarrow>
             removeBlock_loop n env b rest (emit s1 (Ev_unconfirmed hash (block_hash b)))))"

definition removeBlock' :: "nat \<Rightarrow> env \<Rightarrow> mempool \<Rightarrow> block \<Rightarrow> tx list \<Rightarrow> unit result option" where
  "removeBlock' n env s b txs =
     (if length (map_p s) = 0 then Some (Inr (), s\<lparr>tip := prevBlock b\<rparr>)
      else
        (case removeBlock_loop n env b (tl txs) s of
           None \<Rightarrow> None
         | Some (Inl e, s1) \<Rightarrow> Some (Inl e, s1)
         | Some (Inr u, s1) \<Rightarrow>
             let s2 = s1\<lparr>rejects := []\<rparr> in
             (case cache_flush env s2 of
                Some e \<Rightarrow> Some (Inl e, s2)
              | None \<Rightarrow> Some (Inr (), s2\<lparr>tip := prevBlock b\<rparr>))))"

section \<open>Ancestors, and sample data\<close>

text \<open>
  The in-pool ancestors of a transaction with the inputs \<open>ins\<close>: the hashes of the pool
  that an input names, and the hashes of the pool that an input of an ancestor names.
\<close>

inductive_set ancestors :: "(hash \<times> entry) list \<Rightarrow> outpoint list \<Rightarrow> hash set"
  for pool :: "(hash \<times> entry) list" and ins :: "outpoint list"
where
  parent: "prevout \<in> set ins \<Longrightarrow> map_of pool (fst prevout) = Some e
             \<Longrightarrow> fst prevout \<in> ancestors pool ins"
| grand: "h \<in> ancestors pool ins \<Longrightarrow> map_of pool h = Some e
             \<Longrightarrow> prevout \<in> set (inputs (tx e))
             \<Longrightarrow> map_of pool (fst prevout) = Some e' \<Longrightarrow> fst prevout \<in> ancestors pool ins"

text \<open>
  A sample environment: a chain at height 100 that holds the coins of the transactions
  \<open>X\<close> and \<open>Y\<close>, permissive script checks, small limits, no address index, no persistent
  cache, and a listener of the event \<open>error\<close>.
\<close>

definition options0 :: options where
  "options0 =
     \<lparr>maxSize = 1200, maxOrphans = 100, maxAncestors = 25, expiryTime = 1000, minRelay = 1,
      limitFree = False, limitFreeRelay = 15, relayPriority = False, requireStandard = True,
      rejectAbsurdFees = False, prematureWitness = False, paranoidChecks = False,
      replaceByFee = False, indexAddress = False, persistent = False\<rparr>"

definition chain0 :: chain where
  "chain0 =
     \<lparr>chain_height = 100, chain_tip = ''B100'', genesis_hash = ''B0'', hasCSV = True,
      chain_hasWitness = True,
      chain_verifyFinal = (\<lambda>t. Inr True),
      chain_hasCoins = (\<lambda>t. Inr False),
      chain_readCoin = (\<lambda>p. Inr (if fst p = ''X'' \<or> fst p = ''Y'' then Some 100 else None)),
      chain_verifyLocks = (\<lambda>t v. Inr True),
      hasPending = (\<lambda>h. False)\<rparr>"

definition policy0 :: policy where
  "policy0 =
     \<lparr>MAX_TX_WEIGHT = 400000, MAX_TX_SIGOPS_COST = 16000,
      getMinFee = (\<lambda>sz rate. (sz * rate) div 1000),
      STANDARD_VERIFY_FLAGS = 0x1FF, MANDATORY_VERIFY_FLAGS = 0x1,
      ONLY_STANDARD_VERIFY_FLAGS = 0x1FE, VERIFY_WITNESS = 0x800, VERIFY_CLEANSTACK = 0x100\<rparr>"

definition env0 :: env where
  "env0 =
     \<lparr>opts = options0, chn = chain0, pol = policy0, now = 500,
      randomRange = (\<lambda>lo hi. lo),
      hasStandardInputs = (\<lambda>t v. True),
      hasStandardWitness = (\<lambda>t v. True),
      isFree = (\<lambda>e h. False),
      checkInputs = (\<lambda>t v h. (0, ''ok'', 0)),
      verifyAsync = (\<lambda>t v flags. Inr True),
      getFee = (\<lambda>t v. 10),
      getPriority = (\<lambda>t v h. 0),
      errorListener = True,
      batch_write = (\<lambda>s. None),
      cache_wipe = (\<lambda>s. None)\<rparr>"

definition pool_of :: "(hash \<times> entry) list \<Rightarrow> (outpoint \<times> hash) list \<Rightarrow> int \<Rightarrow> mempool" where
  "pool_of es sp sz =
     \<lparr>size_p = sz, freeCount = 0, lastTime = 0, lastFlush = 0, tip = ''B0'',
      waiting = Map.empty, orphans = [], map_p = es, spents = map_of sp, rejects = [],
      coinIndex = \<lparr>ci_index = Map.empty, ci_map = Map.empty\<rparr>,
      txIndex = \<lparr>ti_index = Map.empty, ti_map = Map.empty\<rparr>, events = []\<rparr>"

definition txP :: tx where "txP = mk_tx ''P'' [(''X'', 0)] [50, 40]"

definition txC :: tx where "txC = mk_tx ''C'' [(''P'', 0)] [45]"

definition txE :: tx where "txE = mk_tx ''E'' [(''C'', 0), (''P'', 1)] [80]"

definition s_PCE :: mempool where
  "s_PCE = pool_of
     [(''P'', mk_entry txP 10 100 15 200 1), (''C'', mk_entry txC 5 100 5 100 2),
      (''E'', mk_entry txE 7 120 7 120 3)]
     [((''X'', 0), ''P''), ((''P'', 0), ''C''), ((''C'', 0), ''E''), ((''P'', 1), ''E'')] 1500"

definition eE :: entry where "eE = mk_entry txE 7 120 7 120 3"

text \<open>The sample environment with \<open>maxAncestors = 1\<close>.\<close>

definition env_a1 :: env where
  "env_a1 = env0\<lparr>opts := options0\<lparr>maxAncestors := 1\<rparr>\<rparr>"

definition s_PC1 :: mempool where
  "s_PC1 = pool_of
     [(''P'', mk_entry txP 10 100 15 200 1), (''C'', mk_entry txC 5 100 5 100 2)]
     [((''X'', 0), ''P''), ((''P'', 0), ''C'')] 1000"

section \<open>Notions used in the proofs\<close>

definition keeps_tx :: "(entry \<Rightarrow> entry \<Rightarrow> entry) \<Rightarrow> bool" where
  "keeps_tx f = (\<forall>p c. tx (f p c) = tx p)"

definition trav_ok ::
  "(entry \<Rightarrow> entry \<Rightarrow> entry) \<Rightarrow> entry \<Rightarrow> hash list \<times> (hash \<times> entry) list
     \<Rightarrow> hash list \<times> (hash \<times> entry) list \<Rightarrow> hash list \<Rightarrow> bool" where
  "trav_ok f child st st' new =
     (fst st' = fst st @ new \<and> distinct new \<and> set new \<inter> set (fst st) = {}
      \<and> (\<forall>h. map_of (snd st') h =
              (if h \<in> set new then map_option (\<lambda>p. f p child) (map_of (snd st) h)
               else map_of (snd st) h))
      \<and> (\<forall>h \<in> set new. map_of (snd st) h \<noteq> None))"

definition graph :: "(hash \<times> entry) list \<Rightarrow> hash \<Rightarrow> outpoint list option" where
  "graph pool h = map_option (\<lambda>e. inputs (tx e)) (map_of pool h)"

definition closed_under ::
  "(hash \<Rightarrow> outpoint list option) \<Rightarrow> outpoint list \<Rightarrow> hash set \<Rightarrow> hash set \<Rightarrow> bool" where
  "closed_under g ps V W =
     ((\<forall>p \<in> set ps. g (fst p) \<noteq> None \<longrightarrow> fst p \<in> W)
      \<and> (\<forall>h \<in> W - V. \<forall>ins. g h = Some ins \<longrightarrow> (\<forall>q \<in> set ins. g (fst q) \<noteq> None \<longrightarrow> fst q \<in> W)))"

text \<open>
  The invariant behind size consistency: the keys of the pool map are distinct, every
  entry is filed under the hash of its transaction, which is no coinbase, and \<open>size\<close> is
  the sum of the memory usage. It depends on the pool through its keys and transactions
  only (\<open>skeleton\<close>), which no fee update changes.
\<close>

definition sumUsage :: "(hash \<times> entry) list \<Rightarrow> int" where
  "sumUsage pool = sum_list (map (\<lambda>kv. memUsage (snd kv)) pool)"

definition skeleton :: "(hash \<times> entry) list \<Rightarrow> (hash \<times> tx) list" where
  "skeleton pool = map (\<lambda>kv. (fst kv, tx (snd kv))) pool"

definition wf_pool :: "mempool \<Rightarrow> bool" where
  "wf_pool s =
     (distinct (map fst (map_p s))
      \<and> (\<forall>kv \<in> set (map_p s). tx_hash (tx (snd kv)) = fst kv \<and> \<not> isCoinbase (tx (snd kv)))
      \<and> size_p s = sumUsage (map_p s))"

definition sub_skel :: "mempool \<Rightarrow> mempool \<Rightarrow> bool" where
  "sub_skel s' s = (set (skeleton (map_p s')) \<subseteq> set (skeleton (map_p s)))"

text \<open>
  The states a mempool reaches by calls that return: from the constructor, by \<open>_reset\<close>,
  by \<open>trackEntry\<close>, by the fee update of an admission, and by \<open>removeEntry\<close> or
  \<open>evictEntry\<close> on an entry of the pool map. A call that a failed assertion ends is no
  step. The last rule lets every field other than \<open>map\<close>, \<open>spents\<close> and \<open>size\<close> change
  freely, as the other methods do between these calls.
\<close>

inductive reachable :: "env \<Rightarrow> mempool \<Rightarrow> bool" for env :: env where
  init: "reachable env (Mempool env)"
| reset: "reachable env s \<Longrightarrow> reset' env s = (r, s') \<Longrightarrow> reachable env s'"
| track: "reachable env s \<Longrightarrow> trackEntry env s entry view = (Inr (), s') \<Longrightarrow> reachable env s'"
| update: "reachable env s \<Longrightarrow> updateAncestors env s entry addFee = (k, s') \<Longrightarrow> reachable env s'"
| remove: "reachable env s \<Longrightarrow> getEntry s h = Some entry \<Longrightarrow> removeEntry env s entry = (Inr (), s')
             \<Longrightarrow> reachable env s'"
| evict: "reachable env s \<Longrightarrow> getEntry s h = Some entry
             \<Longrightarrow> evictEntry n env s entry = Some (Inr (), s') \<Longrightarrow> reachable env s'"
| other: "reachable env s \<Longrightarrow> map_p s' = map_p s \<Longrightarrow> spents s' = spents s \<Longrightarrow> size_p s' = size_p s
             \<Longrightarrow> reachable env s'"

definition keeps_wf :: "(mempool \<Rightarrow> entry \<Rightarrow> unit result option) \<Rightarrow> bool" where
  "keeps_wf rec =
     (\<forall>s e s'. wf_pool s \<longrightarrow> rec s e = Some (Inr (), s') \<longrightarrow> wf_pool s' \<and> sub_skel s' s)"

definition eP :: entry where "eP = mk_entry txP 10 100 10 100 1"

definition eC :: entry where "eC = mk_entry txC 5 100 5 100 2"

definition s_P :: mempool where
  "s_P = pool_of [(''P'', eP)] [((''X'', 0), ''P'')] 500"

definition s_PC :: mempool where
  "s_PC = pool_of [(''P'', eP), (''C'', eC)] [((''P'', 0), ''C''), ((''X'', 0), ''P'')] 1000"

definition txA :: tx where "txA = mk_tx ''A'' [(''X'', 1)] [90]"

definition txB :: tx where "txB = mk_tx ''B'' [(''X'', 2)] [90]"

definition txD :: tx where "txD = mk_tx ''D'' [(''Y'', 0)] [90]"

definition s_ABD :: mempool where
  "s_ABD = pool_of
     [(''A'', mk_entry txA 1 100 1 100 400), (''B'', mk_entry txB 5 100 5 100 401),
      (''D'', mk_entry txD 9 100 9 100 402)]
     [((''X'', 1), ''A''), ((''X'', 2), ''B''), ((''Y'', 0), ''D'')] 1500"

definition s_BD :: mempool where
  "s_BD = (pool_of
     [(''B'', mk_entry txB 5 100 5 100 401), (''D'', mk_entry txD 9 100 9 100 402)]
     [((''X'', 2), ''B''), ((''Y'', 0), ''D'')] 1000)\<lparr>events := [Ev_remove_entry ''A'']\<rparr>"

definition txQ :: tx where "txQ = mk_tx ''Q'' [(''X'', 0)] [60]"

definition txW :: tx where "txW = mk_tx ''W'' [(''P'', 5)] [10]"

definition txCB :: tx where "txCB = (mk_tx ''CB'' [] [5000])\<lparr>isCoinbase := True\<rparr>"

definition b101 :: block where
  "b101 = \<lparr>block_hash = ''B101'', prevBlock = ''B100'', block_height = 101\<rparr>"

definition s_C' :: mempool where
  "s_C' = (pool_of [(''C'', eC)] [((''P'', 0), ''C'')] 500)
            \<lparr>tip := ''B101'',
             events := [Ev_remove_entry ''P'', Ev_confirmed ''P'' ''B101'']\<rparr>"

text \<open>A chain whose database fails on \<open>hasCoins\<close>, and a block that holds \<open>Q\<close>.\<close>

definition env_io :: env where
  "env_io = env0\<lparr>chn := chain0\<lparr>chain_hasCoins := (\<lambda>t. Inl ''database error'')\<rparr>\<rparr>"

text \<open>The sample environment without a listener of the event \<open>error\<close>.\<close>

definition env_nl :: env where
  "env_nl = env0\<lparr>errorListener := False\<rparr>"

definition orphanQ :: orphan where "orphanQ = newOrphan txQ 1 7"

text \<open>
  Every entry of the pool \<open>s'\<close> has the height \<open>H\<close> or was in the pool \<open>s\<close> under the same
  hash with the same height.
\<close>

definition heights_from :: "int \<Rightarrow> mempool \<Rightarrow> mempool \<Rightarrow> bool" where
  "heights_from H s s' =
     (\<forall>h e. getEntry s' h = Some e
        \<longrightarrow> height e = H \<or> (\<exists>e0. getEntry s h = Some e0 \<and> height e0 = height e))"

definition keeps_heights :: "int \<Rightarrow> (mempool \<Rightarrow> entry \<Rightarrow> unit result option) \<Rightarrow> bool" where
  "keeps_heights H rec = (\<forall>s e r s'. rec s e = Some (r, s') \<longrightarrow> heights_from H s s')"

definition ins_heights ::
  "int \<Rightarrow> (mempool \<Rightarrow> tx \<Rightarrow> int \<Rightarrow> (hash list option) result option) \<Rightarrow> bool" where
  "ins_heights H ins = (\<forall>s t i r s'. ins s t i = Some (r, s') \<longrightarrow> heights_from H s s')"

definition eD :: entry where
  "eD = \<lparr>tx = txD, height = 100, size_e = 100, sigops = 4, priority = 0, fee = 10,
          deltaFee = 10, time = 500, descFee = 10, descSize = 100\<rparr>"

definition s_PD :: mempool where
  "s_PD = (pool_of [(''P'', eP), (''D'', eD)] [((''Y'', 0), ''D''), ((''X'', 0), ''P'')] 1000)
            \<lparr>events := [Ev_tx ''D'', Ev_add_entry ''D'']\<rparr>"

text \<open>
  The sample environment with the address index switched on, and a parent \<open>G\<close> with its
  child \<open>H\<close>, whose outputs pay to the addresses \<open>aG\<close> and \<open>aH\<close>. In \<open>env_ixG\<close> the chain
  holds the coin of \<open>G\<close>: the block of \<open>G\<close> is connected. \<open>eH\<close> and \<open>eG\<close> are the entries
  \<open>insertTX\<close> makes. In \<open>s_H\<close> the child is in the pool while the parent is confirmed;
  in \<open>s_HG\<close> the parent has come back after it; \<open>s_G\<close> is the state in which the removal
  of \<open>H\<close> is thrown out of.
\<close>

definition env_ix :: env where
  "env_ix = env0\<lparr>opts := options0\<lparr>indexAddress := True\<rparr>\<rparr>"

definition env_ixG :: env where
  "env_ixG = env_ix\<lparr>chn := chain0\<lparr>chain_readCoin :=
                       (\<lambda>p. Inr (if fst p = ''G'' then Some 90 else None))\<rparr>\<rparr>"

definition txG :: tx where
  "txG = (mk_tx ''G'' [(''Y'', 0)] [90])
           \<lparr>getHashes := (\<lambda>v. [''aY'', ''aG'']), outputHash := (\<lambda>i. Some ''aG'')\<rparr>"

definition txH :: tx where
  "txH = (mk_tx ''H'' [(''G'', 0)] [80])
           \<lparr>getHashes := (\<lambda>v. [''aG'', ''aH'']), outputHash := (\<lambda>i. Some ''aH'')\<rparr>"

definition eG :: entry where
  "eG = \<lparr>tx = txG, height = 100, size_e = 100, sigops = 4, priority = 0, fee = 10,
          deltaFee = 10, time = 500, descFee = 10, descSize = 100\<rparr>"

definition eH :: entry where
  "eH = \<lparr>tx = txH, height = 100, size_e = 100, sigops = 4, priority = 0, fee = 10,
          deltaFee = 10, time = 500, descFee = 10, descSize = 100\<rparr>"

definition s_H :: mempool where
  "s_H = (pool_of [(''H'', eH)] [((''G'', 0), ''H'')] 500)
      \<lparr>coinIndex := \<lparr>ci_index = [''aH'' \<mapsto> [(''H'', 0)]], ci_map = [(''H'', 0) \<mapsto> ''aH'']\<rparr>,
       txIndex := \<lparr>ti_index = [''aG'' \<mapsto> [''H''], ''aH'' \<mapsto> [''H'']],
                   ti_map = [''H'' \<mapsto> [''aG'', ''aH'']]\<rparr>,
       events := [Ev_tx ''H'', Ev_add_entry ''H'']\<rparr>"

definition s_HG :: mempool where
  "s_HG = (pool_of [(''H'', eH), (''G'', eG)] [((''Y'', 0), ''G''), ((''G'', 0), ''H'')] 1000)
      \<lparr>tip := ''B100'',
       coinIndex := \<lparr>ci_index = [''aH'' \<mapsto> [(''H'', 0)], ''aG'' \<mapsto> [(''G'', 0)]],
                     ci_map = [(''H'', 0) \<mapsto> ''aH'', (''G'', 0) \<mapsto> ''aG'']\<rparr>,
       txIndex := \<lparr>ti_index = [''aH'' \<mapsto> [''H''], ''aY'' \<mapsto> [''G''], ''aG'' \<mapsto> [''H'', ''G'']],
                   ti_map = [''H'' \<mapsto> [''aG'', ''aH''], ''G'' \<mapsto> [''aY'', ''aG'']]\<rparr>,
       events := [Ev_tx ''H'', Ev_add_entry ''H'', Ev_tx ''G'', Ev_add_entry ''G'',
                  Ev_unconfirmed ''G'' ''B101'']\<rparr>"

definition s_G :: mempool where
  "s_G = (pool_of [(''G'', eG)] [((''Y'', 0), ''G'')] 1000)
      \<lparr>tip := ''B100'',
       coinIndex := \<lparr>ci_index = [''aH'' \<mapsto> [(''H'', 0)], ''aG'' \<mapsto> [(''G'', 0)]],
                     ci_map = [(''H'', 0) \<mapsto> ''aH'', (''G'', 0) \<mapsto> ''aG'']\<rparr>,
       txIndex := \<lparr>ti_index = [''aY'' \<mapsto> [''G''], ''aG'' \<mapsto> [''G'']],
                   ti_map = [''G'' \<mapsto> [''aY'', ''aG'']]\<rparr>,
       events := [Ev_tx ''H'', Ev_add_entry ''H'', Ev_tx ''G'', Ev_add_entry ''G'',
                  Ev_unconfirmed ''G'' ''B101'']\<rparr>"

text \<open>The block that replaces the block 101 after the reorganisation.\<close>

definition b101b :: block where
  "b101b = \<lparr>block_hash = ''B101b'', prevBlock = ''B100'', block_height = 101\<rparr>"

text \<open>
  A pool that holds \<open>A\<close> and the orphan \<open>O\<close>, which waits for its parent \<open>T\<close>; \<open>eT\<close> is the
  entry \<open>insertTX\<close> makes of \<open>T\<close>, and \<open>s_A2\<close> the state after \<open>addEntry\<close> of that entry.
\<close>

definition txT :: tx where "txT = mk_tx ''T'' [(''X'', 0)] [99]"

definition txO :: tx where "txO = mk_tx ''O'' [(''T'', 0)] [98]"

definition eT :: entry where
  "eT = \<lparr>tx = txT, height = 100, size_e = 100, sigops = 4, priority = 0, fee = 10,
          deltaFee = 10, time = 500, descFee = 10, descSize = 100\<rparr>"

definition s_A :: mempool where
  "s_A = (pool_of [(''A'', mk_entry txA 50 100 50 100 400)] [((''X'', 1), ''A'')] 500)
           \<lparr>waiting := [''T'' \<mapsto> [''O'']], orphans := [(''O'', newOrphan txO 1 7)]\<rparr>"

definition s_A2 :: mempool where
  "s_A2 = (pool_of [(''A'', mk_entry txA 50 100 50 100 400)] [((''X'', 1), ''A'')] 500)
           \<lparr>rejects := [''O''],
            events := [Ev_tx ''T'', Ev_add_entry ''T'', Ev_tx ''O'', Ev_add_entry ''O'',
                       Ev_remove_entry ''O'', Ev_remove_entry ''T'',
                       Ev_bad_orphan (newVerifyError txO ''insufficientfee'' ''mempool full'' 0 False) 7]\<rparr>"

text \<open>The sample environment with a persistent cache whose database fails on a write.\<close>

definition env_wf :: env where
  "env_wf = env0\<lparr>opts := options0\<lparr>persistent := True\<rparr>,
                 batch_write := (\<lambda>s. Some ''write failed'')\<rparr>"

section \<open>Properties of the comparator\<close>

declare bitlen.simps [simp del]

lemma bitlen_0: "bitlen 0 = 0"
  by (simp add: bitlen.simps)

lemma bitlen_pos: "0 < n \<Longrightarrow> bitlen n = Suc (bitlen (n div 2))"
  by (subst bitlen.simps) simp

lemma bitlen_bound: "0 < m \<Longrightarrow> 2 ^ (bitlen m - 1) \<le> m"
proof (induction m rule: bitlen.induct)
  case (1 n)
  show ?case
  proof (cases "n div 2 = 0")
    case True
    with 1(2) have "n = 1" by (simp add: div_eq_0_iff)
    then show ?thesis by (simp add: bitlen_pos bitlen_0)
  next
    case False
    with 1 have ih: "2 ^ (bitlen (n div 2) - 1) \<le> n div 2" by simp
    from False have pos: "0 < bitlen (n div 2)" by (simp add: bitlen_pos)
    have "bitlen n = Suc (bitlen (n div 2))" using 1(2) by (simp add: bitlen_pos)
    then have "2 ^ (bitlen n - 1) = 2 * 2 ^ (bitlen (n div 2) - 1)"
      using pos by (cases "bitlen (n div 2)") simp_all
    also have "\<dots> \<le> 2 * (n div 2)" using ih by simp
    also have "\<dots> \<le> n" by simp
    finally show ?thesis .
  qed
qed

lemma toDouble_small: "\<bar>n\<bar> < 2 ^ 53 \<Longrightarrow> toDouble n = n"
  by (simp add: toDouble_def)

lemma toDouble_mag:
  assumes "\<not> \<bar>n\<bar> < 2 ^ 53"
  shows "\<exists>k>0. toDouble n = sgn n * int k"
proof -
  define m where "m = nat \<bar>n\<bar>"
  define e where "e = bitlen m - 53"
  define q where "q = m div 2 ^ e"
  define q1 where "q1 = (if 2 * (m mod 2 ^ e) > 2 ^ e \<or> (2 * (m mod 2 ^ e) = 2 ^ e \<and> odd q) then q + 1 else q)"
  from assms have m: "0 < m" by (auto simp: m_def)
  have "(2::nat) ^ e \<le> 2 ^ (bitlen m - 1)" unfolding e_def by (rule power_increasing) auto
  also have "\<dots> \<le> m" using bitlen_bound [OF m] .
  finally have "0 < q" unfolding q_def by (simp add: div_greater_zero_iff)
  then have "0 < q1 * 2 ^ e" by (simp add: q1_def)
  moreover have "toDouble n = sgn n * int (q1 * 2 ^ e)"
    using assms unfolding toDouble_def Let_def q1_def q_def e_def m_def by (simp only: if_False)
  ultimately show ?thesis by blast
qed

text \<open>Rounding to a double keeps the sign.\<close>

lemma toDouble_neg: "toDouble n < 0 \<longleftrightarrow> n < 0"
proof (cases "\<bar>n\<bar> < 2 ^ 53")
  case True then show ?thesis by (simp add: toDouble_small)
next
  case False
  from toDouble_mag [OF False] obtain k where "0 < k" "toDouble n = sgn n * int k" by blast
  then show ?thesis by (simp add: mult_less_0_iff sgn_if)
qed

lemma toDouble_zero: "toDouble n = 0 \<longleftrightarrow> n = 0"
proof (cases "\<bar>n\<bar> < 2 ^ 53")
  case True then show ?thesis by (simp add: toDouble_small)
next
  case False
  from toDouble_mag [OF False] obtain k where "0 < k" "toDouble n = sgn n * int k" by blast
  then show ?thesis by (simp add: sgn_if)
qed

lemma exact_productsD:
  assumes "exact_products a b"
    "f \<in> {deltaFee a, descFee a, deltaFee b, descFee b}"
    "s \<in> {size_e a, descSize a, size_e b, descSize b}"
  shows "toDouble (f * s) = f * s" "toDouble (s * f) = s * f"
proof -
  from assms have "\<bar>f * s\<bar> < 2 ^ 53" unfolding exact_products_def by blast
  then show "toDouble (f * s) = f * s" by (rule toDouble_small)
  then show "toDouble (s * f) = s * f" by (simp add: mult.commute)
qed

lemma useDesc_exact:
  assumes "exact_products a b"
  shows "useDesc a \<longleftrightarrow> descFee a * size_e a > deltaFee a * descSize a"
    and "useDesc b \<longleftrightarrow> descFee b * size_e b > deltaFee b * descSize b"
  using exact_productsD [OF assms] by (simp_all add: useDesc_def Let_def)

lemma useDesc_rates:
  assumes "0 < size_e a" "0 < descSize a"
    and "useDesc a \<longleftrightarrow> descFee a * size_e a > deltaFee a * descSize a"
  shows "useDesc a \<longleftrightarrow> directRate a < packageRate a"
proof -
  have "directRate a < packageRate a \<longleftrightarrow>
        of_int (deltaFee a) * of_int (descSize a) < (of_int (descFee a) * of_int (size_e a) :: real)"
    using assms(1,2) by (simp add: directRate_def packageRate_def divide_simps mult.commute)
  also have "\<dots> \<longleftrightarrow> deltaFee a * descSize a < descFee a * size_e a"
    by (metis of_int_less_iff of_int_mult)
  finally show ?thesis using assms(3) by simp
qed

lemma greaterRate_eff:
  assumes "0 < size_e a" "0 < descSize a"
    and "useDesc a \<longleftrightarrow> descFee a * size_e a > deltaFee a * descSize a"
  shows "greaterRate a =
     of_int (if useDesc a then descFee a else deltaFee a) /
     of_int (if useDesc a then descSize a else size_e a)"
  using useDesc_rates [OF assms]
  by (auto simp: greaterRate_def max_def directRate_def packageRate_def)

lemma frac_less_cross:
  fixes xf xs yf ys :: int
  assumes "0 < xs" "0 < ys"
  shows "(of_int xf / of_int xs < (of_int yf / of_int ys :: real)) \<longleftrightarrow> xf * ys < xs * yf"
proof -
  have "(of_int xf / of_int xs < (of_int yf / of_int ys :: real)) \<longleftrightarrow>
        (of_int xf * of_int ys < (of_int xs * of_int yf :: real))"
    using assms by (simp add: divide_simps mult.commute)
  also have "\<dots> \<longleftrightarrow> xf * ys < xs * yf"
    by (metis of_int_less_iff of_int_mult)
  finally show ?thesis .
qed

lemma frac_eq_cross:
  fixes xf xs yf ys :: int
  assumes "0 < xs" "0 < ys"
  shows "(of_int xf / of_int xs = (of_int yf / of_int ys :: real)) \<longleftrightarrow> xf * ys = xs * yf"
proof -
  have "(of_int xf / of_int xs = (of_int yf / of_int ys :: real)) \<longleftrightarrow>
        (of_int xf * of_int ys = (of_int xs * of_int yf :: real))"
    using assms by (simp add: divide_simps mult.commute)
  also have "\<dots> \<longleftrightarrow> xf * ys = xs * yf"
    by (metis of_int_eq_iff of_int_mult)
  finally show ?thesis .
qed

text \<open>
  C3 (as amended). For entries with positive sizes whose products of a fee (\<open>deltaFee\<close>,
  \<open>descFee\<close>) and a size (\<open>size\<close>, \<open>descSize\<close>) stay below \<open>2^53\<close> in magnitude, where the
  products of doubles are exact, \<open>cmpRate\<close> orders by the GREATER of the direct rate
  \<open>deltaFee/size\<close> and the package rate \<open>descFee/descSize\<close>: the package view is used exactly
  when \<open>descFee * size > deltaFee * descSize\<close>, which is exactly when the package rate is
  the greater one. Equal rates are ordered by older insertion time first.
\<close>

theorem cmpRate_orders_by_greater_rate:
  assumes "0 < size_e a" "0 < descSize a" "0 < size_e b" "0 < descSize b"
    and ex: "exact_products a b"
  shows "(useDesc a \<longleftrightarrow> descFee a * size_e a > deltaFee a * descSize a)
       \<and> (useDesc a \<longleftrightarrow> packageRate a > directRate a)
       \<and> (cmpRate a b < 0 \<longleftrightarrow>
            greaterRate a < greaterRate b \<or> (greaterRate a = greaterRate b \<and> time a < time b))
       \<and> (cmpRate a b = 0 \<longleftrightarrow> greaterRate a = greaterRate b \<and> time a = time b)"
proof -
  let ?xf = "if useDesc a then descFee a else deltaFee a"
  let ?xs = "if useDesc a then descSize a else size_e a"
  let ?yf = "if useDesc b then descFee b else deltaFee b"
  let ?ys = "if useDesc b then descSize b else size_e b"
  note ua = useDesc_exact(1) [OF ex] and ub = useDesc_exact(2) [OF ex]
  have xs: "0 < ?xs" and ys: "0 < ?ys" using assms by auto
  have ga: "greaterRate a = of_int ?xf / of_int ?xs"
    using greaterRate_eff [OF assms(1,2) ua] .
  have gb: "greaterRate b = of_int ?yf / of_int ?ys"
    using greaterRate_eff [OF assms(3,4) ub] .
  have lt: "greaterRate a < greaterRate b \<longleftrightarrow> ?xf * ?ys < ?xs * ?yf"
    unfolding ga gb using frac_less_cross [OF xs ys] .
  have eq: "greaterRate a = greaterRate b \<longleftrightarrow> ?xf * ?ys = ?xs * ?yf"
    unfolding ga gb using frac_eq_cross [OF xs ys] .
  have px: "toDouble (?xf * ?ys) = ?xf * ?ys"
    by (rule exact_productsD(1) [OF ex]) auto
  have py: "toDouble (?xs * ?yf) = ?xs * ?yf"
    by (rule exact_productsD(2) [OF ex]) auto
  have c: "cmpRate a b = (if ?xf * ?ys = ?xs * ?yf then time a - time b
                          else toDouble (?xf * ?ys - ?xs * ?yf))"
    unfolding cmpRate_def Let_def px py by simp
  have 1: "useDesc a \<longleftrightarrow> descFee a * size_e a > deltaFee a * descSize a"
    by (rule ua)
  have 2: "useDesc a \<longleftrightarrow> packageRate a > directRate a"
    using useDesc_rates [OF assms(1,2) ua] .
  have 3: "cmpRate a b < 0 \<longleftrightarrow>
            greaterRate a < greaterRate b \<or> (greaterRate a = greaterRate b \<and> time a < time b)"
    unfolding lt eq c by (auto simp: toDouble_neg)
  have 4: "cmpRate a b = 0 \<longleftrightarrow> greaterRate a = greaterRate b \<and> time a = time b"
    unfolding eq c by (auto simp: toDouble_zero)
  from 1 2 3 4 show ?thesis by blast
qed

theorem cmpRate_orders_by_greater_rate_witness:
  "0 < size_e (mk_entry (mk_tx ''a'' [] [10]) 1 1 4 2 7)
   \<and> 0 < descSize (mk_entry (mk_tx ''a'' [] [10]) 1 1 4 2 7)
   \<and> 0 < size_e (mk_entry (mk_tx ''b'' [] [10]) 3 2 3 2 5)
   \<and> 0 < descSize (mk_entry (mk_tx ''b'' [] [10]) 3 2 3 2 5)
   \<and> exact_products (mk_entry (mk_tx ''a'' [] [10]) 1 1 4 2 7) (mk_entry (mk_tx ''b'' [] [10]) 3 2 3 2 5)
   \<and> cmpRate (mk_entry (mk_tx ''a'' [] [10]) 1 1 4 2 7) (mk_entry (mk_tx ''b'' [] [10]) 3 2 3 2 5) = 2
   \<and> useDesc (mk_entry (mk_tx ''a'' [] [10]) 1 1 4 2 7)
   \<and> \<not> greaterRate (mk_entry (mk_tx ''a'' [] [10]) 1 1 4 2 7)
         < greaterRate (mk_entry (mk_tx ''b'' [] [10]) 3 2 3 2 5)"
proof -
  let ?a = "mk_entry (mk_tx ''a'' [] [10]) 1 1 4 2 7"
  let ?b = "mk_entry (mk_tx ''b'' [] [10]) 3 2 3 2 5"
  have h: "0 < size_e ?a" "0 < descSize ?a" "0 < size_e ?b" "0 < descSize ?b"
    by (simp_all add: mk_entry_def)
  have e: "exact_products ?a ?b"
    by (simp add: exact_products_def mk_entry_def)
  have c: "cmpRate ?a ?b = 2"
    by (simp add: cmpRate_def useDesc_def toDouble_def mk_entry_def Let_def)
  have u: "useDesc ?a"
    by (simp add: useDesc_def toDouble_def mk_entry_def Let_def)
  from cmpRate_orders_by_greater_rate [OF h e] c
  have "\<not> greaterRate ?a < greaterRate ?b"
    by simp
  with h e c u show ?thesis by blast
qed

text \<open>
  The claim as worded (ordering by the LESSER of the two rates) fails: entry \<open>a\<close> pays 1 for
  size 1 and has a package of fee 4 and size 2, entry \<open>b\<close> pays 3 for size 2 with no
  descendants. The lesser rate of \<open>a\<close> is 1, below the 3/2 of \<open>b\<close>, yet \<open>cmpRate a b\<close> is
  positive: \<open>a\<close> is ranked by its package rate 2 and sorts after \<open>b\<close>.
\<close>

theorem cmpRate_lesser_rate_counterexample:
  "\<not> (cmpRate (mk_entry (mk_tx ''a'' [] [10]) 1 1 4 2 7) (mk_entry (mk_tx ''b'' [] [10]) 3 2 3 2 5) < 0
       \<longleftrightarrow> lesserRate (mk_entry (mk_tx ''a'' [] [10]) 1 1 4 2 7)
             < lesserRate (mk_entry (mk_tx ''b'' [] [10]) 3 2 3 2 5)
           \<or> (lesserRate (mk_entry (mk_tx ''a'' [] [10]) 1 1 4 2 7)
                = lesserRate (mk_entry (mk_tx ''b'' [] [10]) 3 2 3 2 5)
              \<and> time (mk_entry (mk_tx ''a'' [] [10]) 1 1 4 2 7)
                < time (mk_entry (mk_tx ''b'' [] [10]) 3 2 3 2 5)))"
  by (simp add: cmpRate_def useDesc_def toDouble_def lesserRate_def directRate_def packageRate_def
      mk_entry_def Let_def)

text \<open>
  The bound on the products cannot be dropped. With fees 94906267 and 94906268 and sizes
  94906266 and 94906267 the two cross products are 9007199515875289 and 9007199515875288,
  both above \<open>2 ^ 53\<close>; as doubles they are the same number, so \<open>cmpRate\<close> falls through to the
  times and returns -2, although the first entry has the strictly greater rate (direct and
  package rate coincide for both entries).
\<close>

lemma cmpRate_rounds_large_products:
  "cmpRate (mk_entry (mk_tx ''a'' [] [10]) 94906267 94906266 94906267 94906266 5)
     (mk_entry (mk_tx ''b'' [] [10]) 94906268 94906267 94906268 94906267 7) = - 2
   \<and> greaterRate (mk_entry (mk_tx ''b'' [] [10]) 94906268 94906267 94906268 94906267 7)
     < greaterRate (mk_entry (mk_tx ''a'' [] [10]) 94906267 94906266 94906267 94906266 5)
   \<and> lesserRate (mk_entry (mk_tx ''b'' [] [10]) 94906268 94906267 94906268 94906267 7)
     < lesserRate (mk_entry (mk_tx ''a'' [] [10]) 94906267 94906266 94906267 94906266 5)
   \<and> \<not> exact_products (mk_entry (mk_tx ''a'' [] [10]) 94906267 94906266 94906267 94906266 5)
       (mk_entry (mk_tx ''b'' [] [10]) 94906268 94906267 94906268 94906267 7)"
  by (simp add: cmpRate_def useDesc_def toDouble_def exact_products_def greaterRate_def
      lesserRate_def directRate_def packageRate_def mk_entry_def Let_def bitlen_pos bitlen_0
      divide_simps)

section \<open>The address indices are written apart from the pool\<close>

lemma indexEntry_frame:
  assumes "indexEntry s entry v = (r, s')"
  shows "\<exists>ti ci. s' = s\<lparr>txIndex := ti, coinIndex := ci\<rparr>"
proof -
  have a: "\<And>ti. s\<lparr>txIndex := ti\<rparr> = s\<lparr>txIndex := ti, coinIndex := coinIndex s\<rparr>" by simp
  have b: "\<And>ti ci. s\<lparr>txIndex := ti\<rparr>\<lparr>coinIndex := ci\<rparr> = s\<lparr>txIndex := ti, coinIndex := ci\<rparr>" by simp
  from assms show ?thesis
    unfolding indexEntry_def Let_def
    by (auto split: prod.splits sum.splits intro: a b)
qed

lemma unindexEntry_frame:
  assumes "unindexEntry s entry = (r, s')"
  shows "\<exists>ti ci. s' = s\<lparr>txIndex := ti, coinIndex := ci\<rparr>"
proof -
  have a: "\<And>ti. s\<lparr>txIndex := ti\<rparr> = s\<lparr>txIndex := ti, coinIndex := coinIndex s\<rparr>" by simp
  have b: "\<And>ti ci. s\<lparr>txIndex := ti\<rparr>\<lparr>coinIndex := ci\<rparr> = s\<lparr>txIndex := ti, coinIndex := ci\<rparr>" by simp
  from assms show ?thesis
    unfolding unindexEntry_def Let_def
    by (auto split: prod.splits sum.splits intro: a b)
qed

text \<open>
  What \<open>trackEntry\<close> and \<open>untrackEntry\<close> write: the pool map, the spent map and the indices
  in every run that passes the first assertions, the size only in a run that returns.
\<close>

lemma trackEntry_cases:
  assumes "trackEntry env s entry view = (r, s')"
  shows "(r = Inl (AssertionError ''trackEntry: map has hash'') \<and> s' = s
            \<and> map_of (map_p s) (tx_hash (tx entry)) \<noteq> None)
       \<or> (map_of (map_p s) (tx_hash (tx entry)) = None
            \<and> map_p s' = AList.update (tx_hash (tx entry)) entry (map_p s)
            \<and> (r = Inr () \<longrightarrow> \<not> isCoinbase (tx entry)
                  \<and> spents s' = foldl (\<lambda>m key. m(key \<mapsto> tx_hash (tx entry))) (spents s) (inputs (tx entry))
                  \<and> size_p s' = size_p s + memUsage entry)
            \<and> waiting s' = waiting s \<and> orphans s' = orphans s \<and> rejects s' = rejects s
            \<and> events s' = events s \<and> tip s' = tip s \<and> freeCount s' = freeCount s
            \<and> lastTime s' = lastTime s \<and> lastFlush s' = lastFlush s)"
proof (cases "map_of (map_p s) (tx_hash (tx entry)) = None")
  case False
  with assms show ?thesis by (auto simp: trackEntry_def Let_def)
next
  case fresh: True
  let ?s1 = "s\<lparr>map_p := AList.update (tx_hash (tx entry)) entry (map_p s)\<rparr>"
  let ?s2 = "?s1\<lparr>spents := foldl (\<lambda>m key. m(key \<mapsto> tx_hash (tx entry))) (spents ?s1) (inputs (tx entry))\<rparr>"
  show ?thesis
  proof (cases "isCoinbase (tx entry)")
    case True
    with assms fresh have "s' = ?s1" "r \<noteq> Inr ()" by (auto simp: trackEntry_def Let_def)
    with fresh show ?thesis by simp
  next
    case ncb: False
    show ?thesis
    proof (cases "\<exists>v. view = Some v \<and> indexAddress (opts env)")
      case False
      with assms fresh ncb have "r = Inr ()" "s' = ?s2\<lparr>size_p := size_p ?s2 + memUsage entry\<rparr>"
        by (auto simp: trackEntry_def Let_def split: option.splits)
      with fresh ncb show ?thesis by simp
    next
      case True
      then obtain v where v: "view = Some v" "indexAddress (opts env)" by blast
      obtain r3 s3 where ix: "indexEntry ?s2 entry v = (r3, s3)" by (cases "indexEntry ?s2 entry v")
      from indexEntry_frame [OF ix] obtain ti ci where s3: "s3 = ?s2\<lparr>txIndex := ti, coinIndex := ci\<rparr>"
        by blast
      from assms fresh ncb v ix have
        "(\<exists>e. r3 = Inl e \<and> r = Inl e \<and> s' = s3)
         \<or> (r3 = Inr () \<and> r = Inr () \<and> s' = s3\<lparr>size_p := size_p s3 + memUsage entry\<rparr>)"
        by (cases r3) (auto simp: trackEntry_def Let_def)
      with s3 fresh ncb show ?thesis by auto
    qed
  qed
qed

lemma untrackEntry_cases:
  assumes "untrackEntry env s entry = (r, s')"
  shows "(r = Inl (AssertionError ''untrackEntry: map lacks hash'') \<and> s' = s
            \<and> map_of (map_p s) (tx_hash (tx entry)) = None)
       \<or> (map_of (map_p s) (tx_hash (tx entry)) \<noteq> None
            \<and> map_p s' = AList.delete (tx_hash (tx entry)) (map_p s)
            \<and> (r = Inr () \<longrightarrow> \<not> isCoinbase (tx entry)
                  \<and> spents s' = foldl (\<lambda>m key. m(key := None)) (spents s) (inputs (tx entry))
                  \<and> size_p s' = size_p s - memUsage entry)
            \<and> waiting s' = waiting s \<and> orphans s' = orphans s \<and> rejects s' = rejects s
            \<and> events s' = events s \<and> tip s' = tip s \<and> freeCount s' = freeCount s
            \<and> lastTime s' = lastTime s \<and> lastFlush s' = lastFlush s)"
proof (cases "map_of (map_p s) (tx_hash (tx entry)) = None")
  case True
  with assms show ?thesis by (auto simp: untrackEntry_def Let_def)
next
  case present: False
  let ?s1 = "s\<lparr>map_p := AList.delete (tx_hash (tx entry)) (map_p s)\<rparr>"
  let ?s2 = "?s1\<lparr>spents := foldl (\<lambda>m key. m(key := None)) (spents ?s1) (inputs (tx entry))\<rparr>"
  show ?thesis
  proof (cases "isCoinbase (tx entry)")
    case True
    with assms present have "s' = ?s1" "r \<noteq> Inr ()" by (auto simp: untrackEntry_def Let_def)
    with present show ?thesis by simp
  next
    case ncb: False
    show ?thesis
    proof (cases "indexAddress (opts env)")
      case False
      with assms present ncb have "r = Inr ()" "s' = ?s2\<lparr>size_p := size_p ?s2 - memUsage entry\<rparr>"
        by (auto simp: untrackEntry_def Let_def)
      with present ncb show ?thesis by simp
    next
      case True
      obtain r3 s3 where ix: "unindexEntry ?s2 entry = (r3, s3)" by (cases "unindexEntry ?s2 entry")
      from unindexEntry_frame [OF ix] obtain ti ci where s3: "s3 = ?s2\<lparr>txIndex := ti, coinIndex := ci\<rparr>"
        by blast
      from assms present ncb True ix have
        "(\<exists>e. r3 = Inl e \<and> r = Inl e \<and> s' = s3)
         \<or> (r3 = Inr () \<and> r = Inr () \<and> s' = s3\<lparr>size_p := size_p s3 - memUsage entry\<rparr>)"
        by (cases r3) (auto simp: untrackEntry_def Let_def)
      with s3 present ncb show ?thesis by auto
    qed
  qed
qed

text \<open>Without the address index a removal of an entry of the pool cannot fail.\<close>

lemma untrackEntry_no_index:
  assumes "\<not> indexAddress (opts env)" "map_of (map_p s) (tx_hash (tx entry)) \<noteq> None"
    "\<not> isCoinbase (tx entry)"
  shows "fst (untrackEntry env s entry) = Inr ()"
  using assms by (simp add: untrackEntry_def Let_def)

section \<open>Properties of the ancestor traversal\<close>

lemma cA_None:
  "map_of pool (fst p) = None \<Longrightarrow>
   countAncestors' mx f child (p # rest) (vis, pool) = countAncestors' mx f child rest (vis, pool)"
  by simp

lemma cA_seen:
  "map_of pool (fst p) = Some parent \<Longrightarrow> fst p \<in> set vis \<Longrightarrow>
   countAncestors' mx f child (p # rest) (vis, pool) = countAncestors' mx f child rest (vis, pool)"
  by simp

lemma cA_break1:
  "map_of pool (fst p) = Some parent \<Longrightarrow> fst p \<notin> set vis \<Longrightarrow> int (length (vis @ [fst p])) > mx \<Longrightarrow>
   countAncestors' mx f child (p # rest) (vis, pool)
     = (vis @ [fst p], AList.update (fst p) (f parent child) pool)"
  by (simp add: Let_def)

lemma cA_break2:
  "map_of pool (fst p) = Some parent \<Longrightarrow> fst p \<notin> set vis \<Longrightarrow> \<not> int (length (vis @ [fst p])) > mx \<Longrightarrow>
   r = countAncestors' mx f child (inputs (tx (f parent child)))
         (vis @ [fst p], AList.update (fst p) (f parent child) pool) \<Longrightarrow>
   int (length (fst r)) > mx \<Longrightarrow>
   countAncestors' mx f child (p # rest) (vis, pool) = r"
  by (simp add: Let_def)

lemma cA_cont:
  "map_of pool (fst p) = Some parent \<Longrightarrow> fst p \<notin> set vis \<Longrightarrow> \<not> int (length (vis @ [fst p])) > mx \<Longrightarrow>
   r = countAncestors' mx f child (inputs (tx (f parent child)))
         (vis @ [fst p], AList.update (fst p) (f parent child) pool) \<Longrightarrow>
   \<not> int (length (fst r)) > mx \<Longrightarrow>
   countAncestors' mx f child (p # rest) (vis, pool) = countAncestors' mx f child rest r"
  by (simp add: Let_def)


lemma trav_ok_refl: "trav_ok f child st st []"
  by (simp add: trav_ok_def)

lemma trav_ok_trans:
  assumes "trav_ok f child st st1 new1" "trav_ok f child st1 st2 new2"
  shows "trav_ok f child st st2 (new1 @ new2)"
proof -
  have d: "set new2 \<inter> set new1 = {}" "set new2 \<inter> set (fst st) = {}"
    using assms by (auto simp: trav_ok_def)
  show ?thesis
    unfolding trav_ok_def
  proof (intro conjI allI ballI)
    show "fst st2 = fst st @ new1 @ new2" using assms by (simp add: trav_ok_def)
    show "distinct (new1 @ new2)" using assms d by (auto simp: trav_ok_def)
    show "set (new1 @ new2) \<inter> set (fst st) = {}" using assms d by (auto simp: trav_ok_def)
  next
    fix h
    show "map_of (snd st2) h =
         (if h \<in> set (new1 @ new2) then map_option (\<lambda>p. f p child) (map_of (snd st) h)
          else map_of (snd st) h)"
      using assms d by (auto simp: trav_ok_def)
  next
    fix h assume "h \<in> set (new1 @ new2)"
    then show "map_of (snd st) h \<noteq> None"
      using assms d by (auto simp: trav_ok_def split: if_splits)
  qed
qed

lemma trav_ok_step:
  assumes "map_of pool h = Some parent" "h \<notin> set vis"
  shows "trav_ok f child (vis, pool) (vis @ [h], AList.update h (f parent child) pool) [h]"
  using assms by (auto simp: trav_ok_def update_conv')

lemma countAncestors'_shape:
  "\<exists>new. trav_ok f child st (countAncestors' mx f child ps st) new"
proof (induction mx f child ps st rule: countAncestors'.induct)
  case (1 mx f child vis pool)
  show ?case using trav_ok_refl by (metis countAncestors'.simps(1))
next
  case (2 mx f child prevout rest vis pool)
  show ?case
  proof (cases "map_of pool (fst prevout)")
    case None
    with 2(1) [OF refl None] show ?thesis by (simp only: cA_None [OF None])
  next
    case (Some parent)
    show ?thesis
    proof (cases "fst prevout \<in> set vis")
      case True
      with 2(2) [OF refl Some True] show ?thesis by (simp only: cA_seen [OF Some True])
    next
      case False
      let ?st1 = "(vis @ [fst prevout], AList.update (fst prevout) (f parent child) pool)"
      have s1: "trav_ok f child (vis, pool) ?st1 [fst prevout]"
        using trav_ok_step [OF Some False] .
      show ?thesis
      proof (cases "int (length (vis @ [fst prevout])) > mx")
        case True
        show ?thesis unfolding cA_break1 [OF Some False True] using s1 by blast
      next
        case F2: False
        let ?r = "countAncestors' mx f child (inputs (tx (f parent child))) ?st1"
        obtain new1 where n1: "trav_ok f child ?st1 ?r new1"
          using 2(3) [OF refl Some False refl refl refl F2] by blast
        have s2: "trav_ok f child (vis, pool) ?r ([fst prevout] @ new1)"
          using trav_ok_trans [OF s1 n1] .
        show ?thesis
        proof (cases "int (length (fst ?r)) > mx")
          case True
          show ?thesis unfolding cA_break2 [OF Some False F2 refl True] using s2 by blast
        next
          case F3: False
          obtain new2 where n2: "trav_ok f child ?r (countAncestors' mx f child rest ?r) new2"
            using 2(4) [OF refl Some False refl refl refl F2 refl F3] by blast
          show ?thesis unfolding cA_cont [OF Some False F2 refl F3]
            using trav_ok_trans [OF s2 n2] by blast
        qed
      qed
    qed
  qed
qed

lemma graph_None: "graph pool h = None \<longleftrightarrow> map_of pool h = None"
  by (simp add: graph_def)

lemma graph_Some: "map_of pool h = Some e \<Longrightarrow> graph pool h = Some (inputs (tx e))"
  by (simp add: graph_def)

lemma ancestors_graph_sub:
  assumes "graph pool = graph pool2"
  shows "ancestors pool ins \<subseteq> ancestors pool2 ins"
proof
  fix h assume "h \<in> ancestors pool ins"
  then show "h \<in> ancestors pool2 ins"
  proof (induction rule: ancestors.induct)
    case (parent prevout e)
    have "graph pool2 (fst prevout) \<noteq> None"
      using parent assms graph_None by (metis option.distinct(1))
    then obtain e2 where "map_of pool2 (fst prevout) = Some e2"
      by (auto simp: graph_None)
    with parent show ?case by (auto intro: ancestors.parent)
  next
    case (grand h e prevout e')
    have "graph pool2 h = Some (inputs (tx e))"
      using grand assms graph_Some by metis
    then obtain e2 where e2: "map_of pool2 h = Some e2" "inputs (tx e2) = inputs (tx e)"
      by (auto simp: graph_def)
    have "graph pool2 (fst prevout) \<noteq> None"
      using grand assms graph_None by (metis option.distinct(1))
    then obtain e3 where "map_of pool2 (fst prevout) = Some e3"
      by (auto simp: graph_None)
    with grand e2 show ?case by (auto intro: ancestors.grand)
  qed
qed

lemma ancestors_graph_cong:
  "graph pool = graph pool2 \<Longrightarrow> ancestors pool ins = ancestors pool2 ins"
  using ancestors_graph_sub [of pool pool2 ins] ancestors_graph_sub [of pool2 pool ins]
  by auto

lemma ancestors_mono_ins:
  assumes "set ins \<subseteq> set ins2"
  shows "ancestors pool ins \<subseteq> ancestors pool ins2"
proof
  fix h assume "h \<in> ancestors pool ins"
  then show "h \<in> ancestors pool ins2"
    by (induction rule: ancestors.induct)
       (use assms in \<open>auto intro: ancestors.parent ancestors.grand\<close>)
qed

lemma ancestors_of_parent:
  assumes "p \<in> set ins" "map_of pool (fst p) = Some e"
  shows "ancestors pool (inputs (tx e)) \<subseteq> ancestors pool ins"
proof
  fix h assume "h \<in> ancestors pool (inputs (tx e))"
  then show "h \<in> ancestors pool ins"
  proof (induction rule: ancestors.induct)
    case (parent prevout e1)
    show ?case
      using ancestors.grand [OF ancestors.parent [OF assms] assms(2) parent(1) parent(2)] .
  next
    case (grand h e1 prevout e')
    then show ?case by (auto intro: ancestors.grand)
  qed
qed

lemma trav_ok_graph:
  assumes "trav_ok f child st st' new" "keeps_tx f"
  shows "graph (snd st') = graph (snd st)"
proof
  fix h
  show "graph (snd st') h = graph (snd st) h"
    using assms by (cases "map_of (snd st) h") (auto simp: trav_ok_def graph_def keeps_tx_def)
qed

lemma countAncestors'_graph:
  assumes "keeps_tx f"
  shows "graph (snd (countAncestors' mx f child ps st)) = graph (snd st)"
  using countAncestors'_shape [of f child st mx ps] trav_ok_graph [OF _ assms] by blast

lemma graph_update:
  assumes "map_of pool h = Some parent" "keeps_tx f"
  shows "graph (AList.update h (f parent child) pool) = graph pool"
proof
  fix k show "graph (AList.update h (f parent child) pool) k = graph pool k"
    using assms by (auto simp: graph_def update_conv' keeps_tx_def)
qed

lemma countAncestors'_sound:
  assumes "keeps_tx f"
  shows "set (fst (countAncestors' mx f child ps (vis, pool))) \<subseteq> set vis \<union> ancestors pool ps"
  using assms
proof (induction mx f child ps "(vis, pool)" arbitrary: vis pool rule: countAncestors'.induct)
  case (1 mx f child vis pool)
  show ?case by simp
next
  case (2 mx f child prevout rest vis pool)
  have rest_sub: "ancestors pool rest \<subseteq> ancestors pool (prevout # rest)"
    by (rule ancestors_mono_ins) auto
  show ?case
  proof (cases "map_of pool (fst prevout)")
    case None
    show ?thesis unfolding cA_None [OF None]
      using 2(1) [OF refl None 2(5)] rest_sub by blast
  next
    case (Some parent)
    have hin: "fst prevout \<in> ancestors pool (prevout # rest)"
      using ancestors.parent [of prevout "prevout # rest" pool parent] Some by simp
    show ?thesis
    proof (cases "fst prevout \<in> set vis")
      case True
      show ?thesis unfolding cA_seen [OF Some True]
        using 2(2) [OF refl Some True 2(5)] rest_sub by blast
    next
      case False
      let ?pool1 = "AList.update (fst prevout) (f parent child) pool"
      let ?st1 = "(vis @ [fst prevout], ?pool1)"
      have g1: "graph ?pool1 = graph pool" using graph_update [OF Some 2(5)] .
      show ?thesis
      proof (cases "int (length (vis @ [fst prevout])) > mx")
        case True
        show ?thesis unfolding cA_break1 [OF Some False True] using hin by auto
      next
        case F2: False
        let ?r = "countAncestors' mx f child (inputs (tx (f parent child))) ?st1"
        have txp: "inputs (tx (f parent child)) = inputs (tx parent)"
          using 2(5) by (simp add: keeps_tx_def)
        have "set (fst ?r) \<subseteq> set (vis @ [fst prevout]) \<union> ancestors ?pool1 (inputs (tx (f parent child)))"
          using 2(3) [OF refl Some False refl refl refl F2 2(5)] .
        moreover have "ancestors ?pool1 (inputs (tx (f parent child))) = ancestors pool (inputs (tx parent))"
          using ancestors_graph_cong [OF g1] txp by simp
        moreover have "ancestors pool (inputs (tx parent)) \<subseteq> ancestors pool (prevout # rest)"
          using ancestors_of_parent [of prevout "prevout # rest" pool parent] Some by simp
        ultimately have r_sub: "set (fst ?r) \<subseteq> set vis \<union> ancestors pool (prevout # rest)"
          using hin by auto
        show ?thesis
        proof (cases "int (length (fst ?r)) > mx")
          case True
          show ?thesis unfolding cA_break2 [OF Some False F2 refl True] using r_sub .
        next
          case F3: False
          have gr: "graph (snd ?r) = graph pool"
            using countAncestors'_graph [OF 2(5), of mx child "inputs (tx (f parent child))" ?st1] g1
            by simp
          have "set (fst (countAncestors' mx f child rest ?r)) \<subseteq> set (fst ?r) \<union> ancestors (snd ?r) rest"
            using 2(4) [OF refl Some False refl refl refl F2 prod.collapse _ 2(5)] F3
            by simp
          moreover have "ancestors (snd ?r) rest = ancestors pool rest"
            using ancestors_graph_cong [OF gr] .
          ultimately show ?thesis unfolding cA_cont [OF Some False F2 refl F3]
            using r_sub rest_sub by blast
        qed
      qed
    qed
  qed
qed

lemma countAncestors'_grows:
  "set (fst st) \<subseteq> set (fst (countAncestors' mx f child ps st))"
  using countAncestors'_shape [of f child st mx ps] by (auto simp: trav_ok_def)

lemma countAncestors'_complete:
  assumes "keeps_tx f" "\<not> mx < int (length (fst (countAncestors' mx f child ps (vis, pool))))"
  shows "closed_under (graph pool) ps (set vis) (set (fst (countAncestors' mx f child ps (vis, pool))))"
  using assms
proof (induction mx f child ps "(vis, pool)" arbitrary: vis pool rule: countAncestors'.induct)
  case (1 mx f child vis pool)
  show ?case by (simp add: closed_under_def)
next
  case (2 mx f child prevout rest vis pool)
  note kt = 2(5)
  show ?case
  proof (cases "map_of pool (fst prevout)")
    case None
    have fin: "\<not> mx < int (length (fst (countAncestors' mx f child rest (vis, pool))))"
      using 2(6) unfolding cA_None [OF None] .
    have "closed_under (graph pool) rest (set vis) (set (fst (countAncestors' mx f child rest (vis, pool))))"
      using 2(1) [OF refl None kt fin] .
    then show ?thesis unfolding cA_None [OF None]
      using None by (auto simp: closed_under_def graph_None)
  next
    case (Some parent)
    show ?thesis
    proof (cases "fst prevout \<in> set vis")
      case True
      have fin: "\<not> mx < int (length (fst (countAncestors' mx f child rest (vis, pool))))"
        using 2(6) unfolding cA_seen [OF Some True] .
      have "closed_under (graph pool) rest (set vis) (set (fst (countAncestors' mx f child rest (vis, pool))))"
        using 2(2) [OF refl Some True kt fin] .
      moreover have "fst prevout \<in> set (fst (countAncestors' mx f child rest (vis, pool)))"
        using True countAncestors'_grows [of "(vis, pool)" mx f child rest] by auto
      ultimately show ?thesis unfolding cA_seen [OF Some True]
        by (auto simp: closed_under_def)
    next
      case False
      let ?h = "fst prevout"
      let ?pool1 = "AList.update ?h (f parent child) pool"
      let ?st1 = "(vis @ [?h], ?pool1)"
      have g1: "graph ?pool1 = graph pool" using graph_update [OF Some kt] .
      show ?thesis
      proof (cases "int (length (vis @ [?h])) > mx")
        case True
        with 2(6) show ?thesis unfolding cA_break1 [OF Some False True] by simp
      next
        case F2: False
        let ?r = "countAncestors' mx f child (inputs (tx (f parent child))) ?st1"
        have txp: "inputs (tx (f parent child)) = inputs (tx parent)"
          using kt by (simp add: keeps_tx_def)
        show ?thesis
        proof (cases "int (length (fst ?r)) > mx")
          case True
          with 2(6) show ?thesis unfolding cA_break2 [OF Some False F2 refl True] by simp
        next
          case F3: False
          let ?fin = "countAncestors' mx f child rest ?r"
          have fin: "\<not> mx < int (length (fst ?fin))"
            using 2(6) unfolding cA_cont [OF Some False F2 refl F3] .
          have gr: "graph (snd ?r) = graph pool"
            using countAncestors'_graph [OF kt, of mx child "inputs (tx (f parent child))" ?st1] g1
            by simp
          have c1: "closed_under (graph pool) (inputs (tx parent)) (set (vis @ [?h])) (set (fst ?r))"
            using 2(3) [OF refl Some False refl refl refl F2 kt F3] g1 txp by simp
          have c2: "closed_under (graph pool) rest (set (fst ?r)) (set (fst ?fin))"
            using 2(4) [OF refl Some False refl refl refl F2 prod.collapse _ kt] F3 fin gr
            by simp
          have m1: "set (vis @ [?h]) \<subseteq> set (fst ?r)"
            using countAncestors'_grows [of ?st1 mx f child "inputs (tx (f parent child))"] by simp
          have m2: "set (fst ?r) \<subseteq> set (fst ?fin)"
            using countAncestors'_grows [of ?r mx f child rest] .
          have gh: "graph pool ?h = Some (inputs (tx parent))"
            using graph_Some [OF Some] .
          have "closed_under (graph pool) (prevout # rest) (set vis) (set (fst ?fin))"
            unfolding closed_under_def
          proof (intro conjI ballI allI impI)
            fix p assume "p \<in> set (prevout # rest)" "graph pool (fst p) \<noteq> None"
            then show "fst p \<in> set (fst ?fin)"
              using c2 m1 m2 by (auto simp: closed_under_def)
          next
            fix h ins q
            assume h: "h \<in> set (fst ?fin) - set vis" and gi: "graph pool h = Some ins"
              and q: "q \<in> set ins" "graph pool (fst q) \<noteq> None"
            show "fst q \<in> set (fst ?fin)"
            proof (cases "h \<in> set (fst ?r)")
              case False
              with h gi q c2 show ?thesis by (auto simp: closed_under_def)
            next
              case True
              show ?thesis
              proof (cases "h = ?h")
                case True
                with gi gh have "ins = inputs (tx parent)" by simp
                with q c1 have "fst q \<in> set (fst ?r)" by (auto simp: closed_under_def)
                with m2 show ?thesis by blast
              next
                case False
                with True h have "h \<in> set (fst ?r) - set (vis @ [?h])" by auto
                with gi q c1 have "fst q \<in> set (fst ?r)"
                  unfolding closed_under_def by blast
                with m2 show ?thesis by blast
              qed
            qed
          qed
          then show ?thesis unfolding cA_cont [OF Some False F2 refl F3] .
        qed
      qed
    qed
  qed
qed

lemma closed_under_ancestors:
  assumes "closed_under (graph pool) ins {} W"
  shows "ancestors pool ins \<subseteq> W"
proof
  fix h assume "h \<in> ancestors pool ins"
  then show "h \<in> W"
  proof (induction rule: ancestors.induct)
    case (parent prevout e)
    then show ?case using assms by (auto simp: closed_under_def graph_None)
  next
    case (grand h e prevout e')
    have "graph pool h = Some (inputs (tx e))" using grand graph_Some by blast
    moreover have "graph pool (fst prevout) \<noteq> None" using grand by (simp add: graph_None)
    ultimately show ?case using assms grand(5) grand(3)
      unfolding closed_under_def by blast
  qed
qed

lemma keeps_tx_addFee: "keeps_tx addFee" by (simp add: keeps_tx_def addFee_def)

lemma keeps_tx_removeFee: "keeps_tx removeFee" by (simp add: keeps_tx_def removeFee_def)

lemma keeps_tx_nop: "keeps_tx nop" by (simp add: keeps_tx_def nop_def)

lemma countAncestors'_exact:
  assumes kf: "keeps_tx f" and kg: "keeps_tx g"
    and small: "int (length (fst (countAncestors' mx g child2 ins ([], pool)))) + 1 \<le> mx"
  shows "set (fst (countAncestors' mx f child ins ([], pool))) = ancestors pool ins
       \<and> distinct (fst (countAncestors' mx f child ins ([], pool)))
       \<and> int (length (fst (countAncestors' mx f child ins ([], pool)))) + 1 \<le> mx"
proof -
  let ?rg = "countAncestors' mx g child2 ins ([], pool)"
  let ?rf = "countAncestors' mx f child ins ([], pool)"
  have "closed_under (graph pool) ins (set []) (set (fst ?rg))"
    using countAncestors'_complete [OF kg, of mx child2 ins "[]" pool] small by simp
  then have anc_g: "ancestors pool ins \<subseteq> set (fst ?rg)"
    using closed_under_ancestors by simp
  have snd_f: "set (fst ?rf) \<subseteq> ancestors pool ins"
    using countAncestors'_sound [OF kf, of mx child ins "[]" pool] by simp
  obtain new where "trav_ok f child ([], pool) ?rf new"
    using countAncestors'_shape by blast
  then have dist: "distinct (fst ?rf)" by (simp add: trav_ok_def)
  have "length (fst ?rf) = card (set (fst ?rf))"
    using dist by (simp add: distinct_card)
  also have "\<dots> \<le> card (set (fst ?rg))"
    using snd_f anc_g by (intro card_mono) auto
  also have "\<dots> \<le> length (fst ?rg)" by (rule card_length)
  finally have len: "int (length (fst ?rf)) + 1 \<le> mx" using small by simp
  have "closed_under (graph pool) ins (set []) (set (fst ?rf))"
    using countAncestors'_complete [OF kf, of mx child ins "[]" pool] len by simp
  then have "ancestors pool ins \<subseteq> set (fst ?rf)"
    using closed_under_ancestors by simp
  with snd_f dist len show ?thesis by blast
qed

lemma countAncestors'_bound:
  assumes "int (length vis) \<le> mx"
  shows "int (length (fst (countAncestors' mx f child ps (vis, pool)))) \<le> mx + 1"
  using assms
proof (induction mx f child ps "(vis, pool)" arbitrary: vis pool rule: countAncestors'.induct)
  case (1 mx f child vis pool)
  then show ?case by simp
next
  case (2 mx f child prevout rest vis pool)
  show ?case
  proof (cases "map_of pool (fst prevout)")
    case None
    show ?thesis unfolding cA_None [OF None] using 2(1) [OF refl None 2(5)] .
  next
    case (Some parent)
    show ?thesis
    proof (cases "fst prevout \<in> set vis")
      case True
      show ?thesis unfolding cA_seen [OF Some True] using 2(2) [OF refl Some True 2(5)] .
    next
      case False
      show ?thesis
      proof (cases "int (length (vis @ [fst prevout])) > mx")
        case True
        show ?thesis unfolding cA_break1 [OF Some False True] using 2(5) by simp
      next
        case F2: False
        let ?r = "countAncestors' mx f child (inputs (tx (f parent child)))
                   (vis @ [fst prevout], AList.update (fst prevout) (f parent child) pool)"
        have l1: "int (length (vis @ [fst prevout])) \<le> mx" using F2 by simp
        have b1: "int (length (fst ?r)) \<le> mx + 1"
          using 2(3) [OF refl Some False refl refl refl F2 l1] .
        show ?thesis
        proof (cases "int (length (fst ?r)) > mx")
          case True
          show ?thesis unfolding cA_break2 [OF Some False F2 refl True] using b1 .
        next
          case F3: False
          have l2: "int (length (fst ?r)) \<le> mx" using F3 by simp
          show ?thesis unfolding cA_cont [OF Some False F2 refl F3]
            using 2(4) [OF refl Some False refl refl refl F2 prod.collapse] F3 l2 by simp
        qed
      qed
    qed
  qed
qed

lemma getEntry_updateAncestors:
  "getEntry (snd (updateAncestors env s entry f)) h
     = map_of (snd (countAncestors' (maxAncestors (opts env)) f entry (inputs (tx entry)) ([], map_p s))) h"
  by (simp add: updateAncestors_def getEntry_def Let_def)

lemma ancestors_in_pool:
  "h \<in> ancestors pool ins \<Longrightarrow> map_of pool h \<noteq> None"
  by (induction rule: ancestors.induct) auto

lemma ancestors_finite: "finite (ancestors pool ins)"
proof (rule finite_subset)
  show "ancestors pool ins \<subseteq> dom (map_of pool)"
    using ancestors_in_pool by (auto simp: dom_def)
  show "finite (dom (map_of pool))" by (rule finite_dom_map_of)
qed

lemma ancestors_track:
  assumes fresh: "map_of pool k = None"
    and own: "k \<notin> fst ` set ins"
    and others: "\<forall>h e. map_of pool h = Some e \<longrightarrow> k \<notin> fst ` set (inputs (tx e))"
  shows "ancestors (AList.update k entry pool) ins = ancestors pool ins"
proof (intro equalityI subsetI)
  fix h assume "h \<in> ancestors (AList.update k entry pool) ins"
  then show "h \<in> ancestors pool ins"
  proof (induction rule: ancestors.induct)
    case (parent prevout e)
    from parent(1) own have "fst prevout \<noteq> k" by force
    with parent(2) have "map_of pool (fst prevout) = Some e" by (simp add: update_conv')
    with parent(1) show ?case by (rule ancestors.parent)
  next
    case (grand h e prevout e')
    from grand(5) have "map_of pool h \<noteq> None" by (rule ancestors_in_pool)
    with fresh have hk: "h \<noteq> k" by auto
    with grand(2) have he: "map_of pool h = Some e" by (simp add: update_conv')
    with others grand(3) have "fst prevout \<noteq> k" by force
    with grand(4) have "map_of pool (fst prevout) = Some e'" by (simp add: update_conv')
    with grand(5) he grand(3) show ?case by (rule ancestors.grand)
  qed
next
  fix h assume "h \<in> ancestors pool ins"
  then show "h \<in> ancestors (AList.update k entry pool) ins"
  proof (induction rule: ancestors.induct)
    case (parent prevout e)
    from parent(2) fresh have "fst prevout \<noteq> k" by auto
    with parent(2) have "map_of (AList.update k entry pool) (fst prevout) = Some e"
      by (simp add: update_conv')
    with parent(1) show ?case by (rule ancestors.parent)
  next
    case (grand h e prevout e')
    from grand(2) fresh have "h \<noteq> k" by auto
    with grand(2) have he: "map_of (AList.update k entry pool) h = Some e"
      by (simp add: update_conv')
    from grand(4) fresh have "fst prevout \<noteq> k" by auto
    with grand(4) have "map_of (AList.update k entry pool) (fst prevout) = Some e'"
      by (simp add: update_conv')
    with grand(5) he grand(3) show ?case by (rule ancestors.grand)
  qed
qed

lemma countAncestors'_small:
  assumes kf: "keeps_tx f"
    and card: "int (card (ancestors pool ins)) + 1 \<le> mx"
  shows "int (length (fst (countAncestors' mx f child ins ([], pool)))) + 1 \<le> mx"
proof -
  let ?r = "countAncestors' mx f child ins ([], pool)"
  obtain new where "trav_ok f child ([], pool) ?r new"
    using countAncestors'_shape by blast
  then have dist: "distinct (fst ?r)" by (simp add: trav_ok_def)
  have "set (fst ?r) \<subseteq> ancestors pool ins"
    using countAncestors'_sound [OF kf, of mx child ins "[]" pool] by simp
  then have "card (set (fst ?r)) \<le> card (ancestors pool ins)"
    by (rule card_mono [OF ancestors_finite])
  with dist have "length (fst ?r) \<le> card (ancestors pool ins)"
    by (simp add: distinct_card)
  with card show ?thesis by simp
qed

lemma countAncestors_tracked:
  assumes tr: "trackEntry env s0 entry view = (Inr (), s)"
    and own: "tx_hash (tx entry) \<notin> fst ` set (inputs (tx entry))"
    and others: "\<forall>h e. getEntry s0 h = Some e \<longrightarrow> tx_hash (tx entry) \<notin> fst ` set (inputs (tx e))"
    and pre: "countAncestors env s0 entry + 1 \<le> maxAncestors (opts env)"
  shows "countAncestors env s entry + 1 \<le> maxAncestors (opts env)"
proof -
  let ?mx = "maxAncestors (opts env)"
  let ?ins = "inputs (tx entry)"
  let ?k = "tx_hash (tx entry)"
  from trackEntry_cases [OF tr] have fresh: "map_of (map_p s0) ?k = None"
    and pool: "map_p s = AList.update ?k entry (map_p s0)"
    by auto
  from pre have small0: "int (length (fst (countAncestors' ?mx nop entry ?ins ([], map_p s0)))) + 1 \<le> ?mx"
    by (simp add: countAncestors_def updateAncestors_def Let_def)
  from countAncestors'_exact [OF keeps_tx_nop keeps_tx_nop small0, of entry]
  have "int (card (ancestors (map_p s0) ?ins)) + 1 \<le> ?mx"
    by (metis distinct_card)
  moreover have "ancestors (map_p s) ?ins = ancestors (map_p s0) ?ins"
    unfolding pool using fresh own others by (intro ancestors_track) (auto simp: getEntry_def)
  ultimately have "int (card (ancestors (map_p s) ?ins)) + 1 \<le> ?mx" by simp
  from countAncestors'_small [OF keeps_tx_nop this]
  show ?thesis by (simp add: countAncestors_def updateAncestors_def Let_def)
qed

lemma s_PCE_eval: "trackEntry env0 s_PC1 eE (Some [(''C'', 0) \<mapsto> 45, (''P'', 1) \<mapsto> 40]) = (Inr (), s_PCE)"
proof -
  have sp: "[(''P'', 0) \<mapsto> ''C'', (''X'', 0) \<mapsto> ''P'', (''C'', 0) \<mapsto> ''E'', (''P'', Suc 0) \<mapsto> ''E'']
      = [(''P'', Suc 0) \<mapsto> ''E'', (''C'', 0) \<mapsto> ''E'', (''P'', 0) \<mapsto> ''C'', (''X'', 0) \<mapsto> ''P'']"
    by (rule ext) simp
  show ?thesis
    by (simp add: trackEntry_def pool_of_def mk_entry_def mk_tx_def s_PC1_def s_PCE_def eE_def
      txP_def txC_def txE_def memUsage_def Let_def env0_def options0_def sp)
qed

text \<open>
  C5 (as amended). \<open>updateAncestors(entry, addFee)\<close> adds \<open>entry.deltaFee\<close> to
  \<open>descFee\<close> and \<open>entry.size\<close> to \<open>descSize\<close> of the entries of a set \<open>V\<close> of in-pool
  ancestors of \<open>entry\<close>, the ones the traversal visits, once each, and leaves every other
  entry and every other field of the state as it was. It returns the size of \<open>V\<close>. The
  traversal stops once it has visited more than \<open>maxAncestors\<close> ancestors, and it updates
  an ancestor before it tests the bound: \<open>V\<close> has at most \<open>maxAncestors + 1\<close> elements.
  Under the admission precondition \<open>countAncestors(entry) + 1 \<le> maxAncestors\<close> the set \<open>V\<close> is the
  set of all in-pool ancestors, fewer than \<open>maxAncestors\<close>. The precondition may hold in the state in which
  \<open>updateAncestors\<close> runs, or, as \<open>verify\<close> tests it, in the state before \<open>trackEntry\<close>
  files the entry, when no transaction of the pool and not the entry itself spends an
  output of the entry's own hash.
\<close>

theorem updateAncestors_addFee_every_ancestor_once:
  assumes upd: "updateAncestors env s entry addFee = (n, s')"
  shows "\<exists>V. V \<subseteq> ancestors (map_p s) (inputs (tx entry))
           \<and> n = int (card V)
           \<and> (0 \<le> maxAncestors (opts env) \<longrightarrow> n \<le> maxAncestors (opts env) + 1)
           \<and> (\<forall>h. getEntry s' h =
                 (if h \<in> V
                  then map_option (\<lambda>parent. parent\<lparr>descFee := descFee parent + deltaFee entry,
                                                   descSize := descSize parent + size_e entry\<rparr>)
                         (getEntry s h)
                  else getEntry s h))
           \<and> s' = s\<lparr>map_p := map_p s'\<rparr>
           \<and> (countAncestors env s entry + 1 \<le> maxAncestors (opts env)
                \<longrightarrow> V = ancestors (map_p s) (inputs (tx entry)) \<and> n + 1 \<le> maxAncestors (opts env))
           \<and> (\<forall>s0 view. trackEntry env s0 entry view = (Inr (), s)
                \<longrightarrow> tx_hash (tx entry) \<notin> fst ` set (inputs (tx entry))
                \<longrightarrow> (\<forall>h e. getEntry s0 h = Some e
                       \<longrightarrow> tx_hash (tx entry) \<notin> fst ` set (inputs (tx e)))
                \<longrightarrow> countAncestors env s0 entry + 1 \<le> maxAncestors (opts env)
                \<longrightarrow> V = ancestors (map_p s) (inputs (tx entry)))"
proof -
  let ?mx = "maxAncestors (opts env)"
  let ?ins = "inputs (tx entry)"
  let ?r = "countAncestors' ?mx addFee entry ?ins ([], map_p s)"
  have n: "n = int (length (fst ?r))" and s': "s' = s\<lparr>map_p := snd ?r\<rparr>"
    using upd by (simp_all add: updateAncestors_def Let_def)
  obtain new where tr: "trav_ok addFee entry ([], map_p s) ?r new"
    using countAncestors'_shape by blast
  then have new: "fst ?r = new" and dist: "distinct (fst ?r)" by (simp_all add: trav_ok_def)
  have 1: "set (fst ?r) \<subseteq> ancestors (map_p s) ?ins"
    using countAncestors'_sound [OF keeps_tx_addFee, of ?mx entry ?ins "[]" "map_p s"] by simp
  have 2: "n = int (card (set (fst ?r)))"
    using n dist by (simp add: distinct_card)
  have 3: "0 \<le> ?mx \<longrightarrow> n \<le> ?mx + 1"
    using countAncestors'_bound [of "[]" ?mx addFee entry ?ins "map_p s"] n by simp
  have 4: "\<forall>h. getEntry s' h =
                 (if h \<in> set (fst ?r)
                  then map_option (\<lambda>parent. parent\<lparr>descFee := descFee parent + deltaFee entry,
                                                   descSize := descSize parent + size_e entry\<rparr>)
                         (getEntry s h)
                  else getEntry s h)"
    using tr new s' by (simp add: trav_ok_def getEntry_def addFee_def)
  have 5: "s' = s\<lparr>map_p := map_p s'\<rparr>" using s' by simp
  have 6: "countAncestors env s entry + 1 \<le> ?mx
             \<longrightarrow> set (fst ?r) = ancestors (map_p s) ?ins \<and> n + 1 \<le> ?mx"
  proof
    assume "countAncestors env s entry + 1 \<le> ?mx"
    then have "int (length (fst (countAncestors' ?mx nop entry ?ins ([], map_p s)))) + 1 \<le> ?mx"
      by (simp add: countAncestors_def updateAncestors_def Let_def)
    from countAncestors'_exact [OF keeps_tx_addFee keeps_tx_nop this, of entry]
    show "set (fst ?r) = ancestors (map_p s) ?ins \<and> n + 1 \<le> ?mx" unfolding n by blast
  qed
  have 7: "\<forall>s0 view. trackEntry env s0 entry view = (Inr (), s)
                \<longrightarrow> tx_hash (tx entry) \<notin> fst ` set ?ins
                \<longrightarrow> (\<forall>h e. getEntry s0 h = Some e
                       \<longrightarrow> tx_hash (tx entry) \<notin> fst ` set (inputs (tx e)))
                \<longrightarrow> countAncestors env s0 entry + 1 \<le> ?mx
                \<longrightarrow> set (fst ?r) = ancestors (map_p s) ?ins"
    using countAncestors_tracked [of env _ entry _ s] 6 by blast
  from 1 2 3 4 5 6 7 show ?thesis by blast
qed

theorem updateAncestors_addFee_witness:
  "trackEntry env0 s_PC1 eE (Some [(''C'', 0) \<mapsto> 45, (''P'', 1) \<mapsto> 40]) = (Inr (), s_PCE)
   \<and> countAncestors env0 s_PC1 eE + 1 \<le> maxAncestors (opts env0)
   \<and> fst (updateAncestors env0 s_PCE eE addFee) = 2
   \<and> getEntry (snd (updateAncestors env0 s_PCE eE addFee)) ''P'' = Some (mk_entry txP 10 100 22 320 1)
   \<and> getEntry (snd (updateAncestors env0 s_PCE eE addFee)) ''C'' = Some (mk_entry txC 5 100 12 220 2)
   \<and> getEntry (snd (updateAncestors env0 s_PCE eE addFee)) ''E'' = getEntry s_PCE ''E''"
proof -
  let ?r = "updateAncestors env0 s_PCE eE addFee"
  let ?A = "ancestors (map_p s_PCE) (inputs (tx eE))"
  have pre: "countAncestors env0 s_PC1 eE + 1 \<le> maxAncestors (opts env0)"
    by (simp add: countAncestors_def updateAncestors_def s_PC1_def pool_of_def env0_def
        options0_def eE_def mk_entry_def mk_tx_def txP_def txC_def txE_def nop_def Let_def)
  have own: "tx_hash (tx eE) \<notin> fst ` set (inputs (tx eE))"
    by (simp add: eE_def mk_entry_def mk_tx_def txE_def)
  have others: "\<forall>h e. getEntry s_PC1 h = Some e \<longrightarrow> tx_hash (tx eE) \<notin> fst ` set (inputs (tx e))"
    by (auto simp: getEntry_def s_PC1_def pool_of_def eE_def mk_entry_def mk_tx_def txE_def
        txP_def txC_def split: if_splits)
  have C: "''C'' \<in> ?A"
    using ancestors.parent [of "(''C'', 0)" "inputs (tx eE)" "map_p s_PCE" "mk_entry txC 5 100 5 100 2"]
    by (simp add: s_PCE_def pool_of_def eE_def mk_entry_def mk_tx_def txE_def)
  have P: "''P'' \<in> ?A"
    using ancestors.parent [of "(''P'', 1)" "inputs (tx eE)" "map_p s_PCE" "mk_entry txP 10 100 15 200 1"]
    by (simp add: s_PCE_def pool_of_def eE_def mk_entry_def mk_tx_def txE_def)
  have upd: "updateAncestors env0 s_PCE eE addFee = (fst ?r, snd ?r)" by simp
  obtain V where V: "fst ?r = int (card V)"
      "\<forall>h. getEntry (snd ?r) h =
         (if h \<in> V
          then map_option (\<lambda>parent. parent\<lparr>descFee := descFee parent + deltaFee eE,
                                           descSize := descSize parent + size_e eE\<rparr>)
                 (getEntry s_PCE h)
          else getEntry s_PCE h)"
      "\<forall>s0 view. trackEntry env0 s0 eE view = (Inr (), s_PCE)
                \<longrightarrow> tx_hash (tx eE) \<notin> fst ` set (inputs (tx eE))
                \<longrightarrow> (\<forall>h e. getEntry s0 h = Some e
                       \<longrightarrow> tx_hash (tx eE) \<notin> fst ` set (inputs (tx e)))
                \<longrightarrow> countAncestors env0 s0 eE + 1 \<le> maxAncestors (opts env0)
                \<longrightarrow> V = ?A"
    using updateAncestors_addFee_every_ancestor_once [OF upd]
    by blast
  from V(3) s_PCE_eval own others pre have VA: "V = ?A" by blast
  have gP: "getEntry (snd ?r) ''P'' = Some (mk_entry txP 10 100 22 320 1)"
    using V(2) VA P
    by (simp add: getEntry_def s_PCE_def pool_of_def eE_def mk_entry_def)
  have gC: "getEntry (snd ?r) ''C'' = Some (mk_entry txC 5 100 12 220 2)"
    using V(2) VA C
    by (simp add: getEntry_def s_PCE_def pool_of_def eE_def mk_entry_def)
  have n: "fst ?r = 2"
    by (simp add: updateAncestors_def s_PCE_def pool_of_def env0_def
        options0_def eE_def mk_entry_def mk_tx_def txP_def txC_def txE_def addFee_def Let_def)
  have gE: "getEntry (snd ?r) ''E'' = getEntry s_PCE ''E''"
    by (simp add: getEntry_def updateAncestors_def s_PCE_def pool_of_def env0_def
        options0_def eE_def mk_entry_def mk_tx_def txP_def txC_def txE_def addFee_def Let_def)
  from s_PCE_eval pre n gP gC gE show ?thesis by blast
qed

text \<open>
  The claim as worded (a traversal bounded by \<open>maxAncestors\<close>) fails: with
  \<open>maxAncestors = 1\<close> and the pool \<open>P\<close>, \<open>C\<close>, \<open>E\<close>, where \<open>E\<close> spends \<open>C\<close> and \<open>P\<close> and
  \<open>C\<close> spends \<open>P\<close>, \<open>updateAncestors(E, addFee)\<close> visits \<open>C\<close>, then \<open>P\<close>, updates both
  and returns 2: the test \<open>set.size > maxAncestors\<close> comes after the update of \<open>P\<close>.
\<close>

theorem updateAncestors_bound_counterexample:
  "maxAncestors (opts env_a1) = 1
   \<and> fst (updateAncestors env_a1 s_PCE eE addFee) = 2
   \<and> getEntry (snd (updateAncestors env_a1 s_PCE eE addFee)) ''C'' = Some (mk_entry txC 5 100 12 220 2)
   \<and> getEntry (snd (updateAncestors env_a1 s_PCE eE addFee)) ''P'' = Some (mk_entry txP 10 100 22 320 1)"
  by (simp add: getEntry_def updateAncestors_def s_PCE_def pool_of_def env_a1_def env0_def
      options0_def eE_def mk_entry_def mk_tx_def txP_def txC_def txE_def addFee_def Let_def)

section \<open>Size consistency\<close>

lemma sumUsage_skeleton: "sumUsage pool = sum_list (map (\<lambda>kt. usage (snd kt)) (skeleton pool))"
  by (simp add: sumUsage_def skeleton_def memUsage_def comp_def)

lemma keys_skeleton: "map fst pool = map fst (skeleton pool)"
  by (simp add: skeleton_def comp_def)

lemma wf_pool_skeleton:
  "wf_pool s \<longleftrightarrow>
     (distinct (map fst (skeleton (map_p s)))
      \<and> (\<forall>kt \<in> set (skeleton (map_p s)). tx_hash (snd kt) = fst kt \<and> \<not> isCoinbase (snd kt))
      \<and> size_p s = sum_list (map (\<lambda>kt. usage (snd kt)) (skeleton (map_p s))))"
  unfolding wf_pool_def sumUsage_skeleton keys_skeleton [symmetric]
  by (auto simp: skeleton_def)

lemma skeleton_update_same:
  assumes "map_of pool h = Some p" "tx e = tx p"
  shows "skeleton (AList.update h e pool) = skeleton pool"
  using assms by (induction pool) (auto simp: skeleton_def)

lemma skeleton_update_new:
  assumes "map_of pool h = None"
  shows "skeleton (AList.update h e pool) = skeleton pool @ [(h, tx e)]"
  using assms by (induction pool) (auto simp: skeleton_def)

lemma skeleton_delete:
  "skeleton (AList.delete h pool) = filter (\<lambda>kt. fst kt \<noteq> h) (skeleton pool)"
  by (induction pool) (auto simp: skeleton_def AList.delete_eq)

lemma countAncestors'_skeleton:
  assumes "keeps_tx f"
  shows "skeleton (snd (countAncestors' mx f child ps (vis, pool))) = skeleton pool"
  using assms
proof (induction mx f child ps "(vis, pool)" arbitrary: vis pool rule: countAncestors'.induct)
  case (1 mx f child vis pool)
  show ?case by simp
next
  case (2 mx f child prevout rest vis pool)
  note kt = 2(5)
  show ?case
  proof (cases "map_of pool (fst prevout)")
    case None
    show ?thesis unfolding cA_None [OF None] using 2(1) [OF refl None kt] .
  next
    case (Some parent)
    show ?thesis
    proof (cases "fst prevout \<in> set vis")
      case True
      show ?thesis unfolding cA_seen [OF Some True] using 2(2) [OF refl Some True kt] .
    next
      case False
      let ?pool1 = "AList.update (fst prevout) (f parent child) pool"
      have s1: "skeleton ?pool1 = skeleton pool"
        using skeleton_update_same [OF Some] kt by (simp add: keeps_tx_def)
      show ?thesis
      proof (cases "int (length (vis @ [fst prevout])) > mx")
        case True
        show ?thesis unfolding cA_break1 [OF Some False True] using s1 by simp
      next
        case F2: False
        let ?r = "countAncestors' mx f child (inputs (tx (f parent child))) (vis @ [fst prevout], ?pool1)"
        have s2: "skeleton (snd ?r) = skeleton pool"
          using 2(3) [OF refl Some False refl refl refl F2 kt] s1 by simp
        show ?thesis
        proof (cases "int (length (fst ?r)) > mx")
          case True
          show ?thesis unfolding cA_break2 [OF Some False F2 refl True] using s2 .
        next
          case F3: False
          show ?thesis unfolding cA_cont [OF Some False F2 refl F3]
            using 2(4) [OF refl Some False refl refl refl F2 prod.collapse _ kt] F3 s2 by simp
        qed
      qed
    qed
  qed
qed

lemma updateAncestors_skeleton:
  assumes "keeps_tx f" "updateAncestors env s entry f = (k, s')"
  shows "skeleton (map_p s') = skeleton (map_p s) \<and> size_p s' = size_p s \<and> spents s' = spents s"
  using assms countAncestors'_skeleton [OF assms(1)]
  by (auto simp: updateAncestors_def Let_def)

lemma wf_pool_updateAncestors:
  assumes "keeps_tx f" "updateAncestors env s entry f = (k, s')" "wf_pool s"
  shows "wf_pool s' \<and> sub_skel s' s"
  using updateAncestors_skeleton [OF assms(1,2)] assms(3)
  by (simp add: wf_pool_skeleton sub_skel_def)

lemma wf_pool_trackEntry:
  assumes "wf_pool s" "trackEntry env s entry view = (Inr (), s')"
  shows "wf_pool s'"
proof -
  let ?h = "tx_hash (tx entry)"
  from trackEntry_cases [OF assms(2)]
  have none: "map_of (map_p s) ?h = None" and ncb: "\<not> isCoinbase (tx entry)"
    and m: "map_p s' = AList.update ?h entry (map_p s)"
    and sz: "size_p s' = size_p s + memUsage entry"
    by auto
  have sk: "skeleton (map_p s') = skeleton (map_p s) @ [(?h, tx entry)]"
    unfolding m using skeleton_update_new [OF none] .
  have notin: "?h \<notin> fst ` set (skeleton (map_p s))"
    using none by (simp add: keys_skeleton [symmetric] map_of_eq_None_iff flip: set_map)
  show ?thesis
    using assms(1) sk sz ncb notin
    by (auto simp: wf_pool_skeleton memUsage_def)
qed

lemma sum_list_filter_distinct:
  assumes "distinct (map fst xs)" "(h, t) \<in> set xs"
  shows "sum_list (map (\<lambda>kt. usage (snd kt)) (filter (\<lambda>kt. fst kt \<noteq> h) xs))
         = sum_list (map (\<lambda>kt. usage (snd kt)) xs) - usage t"
  using assms
proof (induction xs)
  case Nil
  then show ?case by simp
next
  case (Cons x xs)
  show ?case
  proof (cases "fst x = h")
    case True
    with Cons.prems have "x = (h, t)"
      by (cases x) (auto simp: rev_image_eqI)
    moreover have "filter (\<lambda>kt. fst kt \<noteq> h) xs = xs"
      using Cons.prems True by (auto simp: filter_id_conv rev_image_eqI)
    ultimately show ?thesis by simp
  next
    case False
    with Cons show ?thesis by auto
  qed
qed

lemma wf_pool_untrackEntry:
  assumes wf: "wf_pool s"
    and same: "\<forall>e'. map_of (map_p s) (tx_hash (tx entry)) = Some e' \<longrightarrow> tx e' = tx entry"
    and un: "untrackEntry env s entry = (Inr (), s')"
  shows "wf_pool s' \<and> sub_skel s' s"
proof -
  let ?h = "tx_hash (tx entry)"
  from untrackEntry_cases [OF un]
  have pres: "map_of (map_p s) ?h \<noteq> None"
    and m: "map_p s' = AList.delete ?h (map_p s)"
    and sz: "size_p s' = size_p s - memUsage entry"
    by auto
  from pres obtain e' where Some: "map_of (map_p s) ?h = Some e'" by blast
  from same Some have te: "tx e' = tx entry" by simp
  have mem: "(?h, tx entry) \<in> set (skeleton (map_p s))"
    using map_of_SomeD [OF Some] te by (force simp: skeleton_def)
  have sk: "skeleton (map_p s') = filter (\<lambda>kt. fst kt \<noteq> ?h) (skeleton (map_p s))"
    unfolding m by (rule skeleton_delete)
  have d: "distinct (map fst (skeleton (map_p s)))" using wf by (simp add: wf_pool_skeleton)
  have su: "sum_list (map (\<lambda>kt. usage (snd kt)) (skeleton (map_p s')))
            = sum_list (map (\<lambda>kt. usage (snd kt)) (skeleton (map_p s))) - usage (tx entry)"
    unfolding sk using sum_list_filter_distinct [OF d mem] .
  have "wf_pool s'"
    unfolding wf_pool_skeleton
  proof (intro conjI)
    show "distinct (map fst (skeleton (map_p s')))"
      unfolding sk using d by (simp add: distinct_map_filter)
    show "\<forall>kt\<in>set (skeleton (map_p s')). tx_hash (snd kt) = fst kt \<and> \<not> isCoinbase (snd kt)"
      unfolding sk using wf by (auto simp: wf_pool_skeleton)
    show "size_p s' = sum_list (map (\<lambda>kt. usage (snd kt)) (skeleton (map_p s')))"
      using su sz wf by (simp add: wf_pool_skeleton memUsage_def)
  qed
  moreover have "sub_skel s' s" unfolding sub_skel_def sk by auto
  ultimately show ?thesis by blast
qed

lemma wf_pool_emit: "wf_pool (emit s ev) = wf_pool s"
  by (simp add: wf_pool_def emit_def)

lemma sub_skel_emit: "sub_skel (emit s' ev) s = sub_skel s' s"
  by (simp add: sub_skel_def emit_def)

lemma sub_skel_refl: "sub_skel s s"
  by (simp add: sub_skel_def)

lemma sub_skel_trans: "sub_skel s2 s1 \<Longrightarrow> sub_skel s1 s \<Longrightarrow> sub_skel s2 s"
  by (auto simp: sub_skel_def)

lemma wf_pool_removeEntry:
  assumes "wf_pool s"
    and "\<forall>e'. map_of (map_p s) (tx_hash (tx entry)) = Some e' \<longrightarrow> tx e' = tx entry"
    and "removeEntry env s entry = (Inr (), s')"
  shows "wf_pool s' \<and> sub_skel s' s"
proof (cases "untrackEntry env s entry")
  case (Pair r1 s1)
  from assms(3) Pair have r1: "r1 = Inr ()" and s': "s' = emit s1 (Ev_remove_entry (hash_e entry))"
    by (auto simp: removeEntry_def split: sum.splits)
  from wf_pool_untrackEntry [OF assms(1,2)] Pair r1 have 1: "wf_pool s1 \<and> sub_skel s1 s" by simp
  with s' show ?thesis by (auto simp: wf_pool_emit sub_skel_emit)
qed

lemma stale_entry:
  assumes "wf_pool s" "map_of (map_p s) h = Some e" "sub_skel s1 s"
  shows "\<forall>e'. map_of (map_p s1) (tx_hash (tx e)) = Some e' \<longrightarrow> tx e' = tx e"
proof (intro allI impI)
  fix e' assume a: "map_of (map_p s1) (tx_hash (tx e)) = Some e'"
  have he: "tx_hash (tx e) = h"
    using assms(1,2) map_of_SomeD [OF assms(2)] by (force simp: wf_pool_def)
  have "(h, tx e') \<in> set (skeleton (map_p s1))"
    using map_of_SomeD [OF a] he by (force simp: skeleton_def)
  then have 1: "(h, tx e') \<in> set (skeleton (map_p s))"
    using assms(3) by (auto simp: sub_skel_def)
  have 2: "(h, tx e) \<in> set (skeleton (map_p s))"
    using map_of_SomeD [OF assms(2)] by (force simp: skeleton_def)
  have "distinct (map fst (skeleton (map_p s)))"
    using assms(1) by (simp add: wf_pool_skeleton)
  from eq_key_imp_eq_value [OF this 1 2] show "tx e' = tx e" .
qed

lemma getSpent_in_pool:
  "getSpent s h i = Some e \<Longrightarrow> \<exists>k. map_of (map_p s) k = Some e"
  by (auto simp: getSpent_def getEntry_def split: option.splits)

lemma removeSpenders_loop_wf:
  assumes "keeps_wf rec" "wf_pool s" "removeSpenders_loop rec env h is s = Some (Inr (), s')"
  shows "wf_pool s' \<and> sub_skel s' s"
  using assms(2,3)
proof (induction "is" arbitrary: s)
  case Nil
  then show ?case by (simp add: sub_skel_refl)
next
  case (Cons i rest)
  show ?case
  proof (cases "getSpent s h i")
    case None
    with Cons show ?thesis by simp
  next
    case (Some spender)
    then obtain k where k: "map_of (map_p s) k = Some spender"
      using getSpent_in_pool by blast
    from Cons.prems(2) Some obtain s1 where r1: "rec s spender = Some (Inr (), s1)"
      by (auto split: option.splits sum.splits prod.splits)
    from assms(1) Cons.prems(1) r1 have w1: "wf_pool s1" "sub_skel s1 s"
      by (auto simp: keeps_wf_def)
    from Cons.prems(2) Some r1 obtain s2 where r2: "removeEntry env s1 spender = (Inr (), s2)"
      by (auto split: sum.splits prod.splits)
    have w2: "wf_pool s2 \<and> sub_skel s2 s1"
      using wf_pool_removeEntry [OF w1(1) stale_entry [OF Cons.prems(1) k w1(2)] r2] .
    from Cons.prems(2) Some r1 r2
    have "removeSpenders_loop rec env h rest s2 = Some (Inr (), s')" by simp
    from Cons.IH [OF _ this] w2 have "wf_pool s' \<and> sub_skel s' s2" by blast
    with w1 w2 show ?thesis by (auto intro: sub_skel_trans)
  qed
qed

lemma removeSpenders_keeps_wf: "keeps_wf (removeSpenders n env)"
proof (induction n)
  case 0
  show ?case by (simp add: keeps_wf_def)
next
  case (Suc n)
  show ?case
    unfolding keeps_wf_def
  proof (intro allI impI)
    fix s e s'
    assume "wf_pool s" "removeSpenders (Suc n) env s e = Some (Inr (), s')"
    then show "wf_pool s' \<and> sub_skel s' s"
      using removeSpenders_loop_wf [OF Suc] by simp
  qed
qed

lemma wf_pool_evictEntry:
  assumes wf: "wf_pool s" and g: "map_of (map_p s) h = Some entry"
    and ev: "evictEntry n env s entry = Some (Inr (), s')"
  shows "wf_pool s' \<and> sub_skel s' s"
proof -
  from ev obtain s1 where r1: "removeSpenders n env s entry = Some (Inr (), s1)"
    by (auto simp: evictEntry_def split: option.splits sum.splits prod.splits)
  from removeSpenders_keeps_wf [of n env] wf r1 have w1: "wf_pool s1" "sub_skel s1 s"
    by (auto simp: keeps_wf_def)
  obtain k s2 where u2: "updateAncestors env s1 entry removeFee = (k, s2)"
    by (cases "updateAncestors env s1 entry removeFee")
  have w2: "wf_pool s2" "sub_skel s2 s1"
    using wf_pool_updateAncestors [OF keeps_tx_removeFee u2 w1(1)] by auto
  have w2s: "sub_skel s2 s" using w2(2) w1(2) by (rule sub_skel_trans)
  from ev r1 u2 have "removeEntry env s2 entry = (Inr (), s')" by (simp add: evictEntry_def)
  from wf_pool_removeEntry [OF w2(1) stale_entry [OF wf g w2s] this] w2s
  show ?thesis by (auto intro: sub_skel_trans)
qed

lemma reachable_wf_pool: "reachable env s \<Longrightarrow> wf_pool s"
proof (induction rule: reachable.induct)
  case init
  show ?case by (simp add: wf_pool_def Mempool_def sumUsage_def)
next
  case (reset s r s')
  from reset.hyps(2) show ?case
    by (auto simp: wf_pool_def reset'_def sumUsage_def Let_def split: option.splits if_splits)
next
  case (track s entry view s')
  from wf_pool_trackEntry [OF track.IH track.hyps(2)] show ?case .
next
  case (update s entry k s')
  from wf_pool_updateAncestors [OF keeps_tx_addFee update.hyps(2) update.IH] show ?case by simp
next
  case (remove s h entry s')
  have g: "map_of (map_p s) h = Some entry" using remove.hyps(2) by (simp add: getEntry_def)
  from wf_pool_removeEntry [OF remove.IH stale_entry [OF remove.IH g sub_skel_refl] remove.hyps(3)]
  show ?case by simp
next
  case (evict s h entry n s')
  have g: "map_of (map_p s) h = Some entry" using evict.hyps(2) by (simp add: getEntry_def)
  from wf_pool_evictEntry [OF evict.IH g evict.hyps(3)] show ?case by simp
next
  case (other s s')
  then show ?case by (simp add: wf_pool_def)
qed

lemma s_P_eval: "trackEntry env0 (Mempool env0) eP (Some [(''X'', 0) \<mapsto> 100]) = (Inr (), s_P)"
  by (simp add: trackEntry_def Mempool_def env0_def chain0_def options0_def pool_of_def
      mk_entry_def mk_tx_def txP_def memUsage_def Let_def s_P_def eP_def)

lemma s_PC_eval: "trackEntry env0 s_P eC (Some [(''P'', 0) \<mapsto> 50]) = (Inr (), s_PC)"
  by (simp add: trackEntry_def pool_of_def mk_entry_def mk_tx_def s_P_def s_PC_def eP_def eC_def
      txP_def txC_def memUsage_def Let_def env0_def options0_def)

text \<open>
  Size consistency for the calls that return. In every state reached from the constructor
  by \<open>_reset\<close>, by calls of \<open>trackEntry\<close>, \<open>removeEntry\<close> and \<open>evictEntry\<close> that return, and by
  \<open>updateAncestors\<close> with \<open>addFee\<close>, the field \<open>size\<close> is the sum of \<open>memUsage()\<close> over the
  entries of the pool map.
\<close>

lemma size_consistency_of_returning_calls:
  assumes "reachable env s"
  shows "size_p s = sum_list (map (\<lambda>kv. memUsage (snd kv)) (map_p s))"
  using reachable_wf_pool [OF assms] by (simp add: wf_pool_def sumUsage_def)

lemma reachable_s_PC: "reachable env0 s_PC"
  using reachable.track [OF reachable.track [OF reachable.init s_P_eval] s_PC_eval] .

lemmas index_eval = trackEntry_def untrackEntry_def removeEntry_def indexEntry_def unindexEntry_def
  unindexEntry_input_def TXIndex_insert_def TXIndex_insert_addr_def TXIndex_remove_def
  TXIndex_remove_addr_def CoinIndex_insert_def CoinIndex_remove_def getTX_def
  Mempool_def env_ix_def env_ixG_def env0_def options0_def chain0_def policy0_def
  txG_def txH_def eG_def eH_def s_H_def s_HG_def s_G_def b101_def b101b_def txCB_def
  mk_tx_def mk_entry_def memUsage_def Let_def emit_def hash_e_def pool_of_def
  insertTX_body_def insertTX_sanity_def insertTX_known_def insertTX_admit_def
  exists_p_def hasOrphan_def hasEntry_def hasReject_def getCoinView_def maybeOrphan_def
  isDoubleSpend_def isSpent_def verify_def verify_scripts_def verifyInputs_def
  countAncestors_def updateAncestors_def addEntry_def handleOrphans_def resolveOrphans_def
  getOrphan_def limitSize_def fromTX_def getEntry_def addFee_def nop_def
  removeBlock'_def addBlock'_def removeOrphan_def cache_flush_def emit_error_def

text \<open>
  C2. The code breaks size consistency when the address index is on. \<open>H\<close> is admitted
  while its parent \<open>G\<close> is confirmed. A reorganisation disconnects the block of \<open>G\<close>:
  \<open>_removeBlock\<close> puts \<open>G\<close> back, and \<open>indexEntry\<close> files the output \<open>G:0\<close> in the coin index
  although \<open>H\<close> spends it. Both calls return, and the state is consistent. The next block
  holds \<open>G\<close> and \<open>H\<close>: \<open>_addBlock\<close> removes \<open>H\<close> first, \<open>untrackEntry\<close> deletes \<open>H\<close> from the pool
  map and the spent map, and \<open>unindexEntry\<close> puts \<open>G:0\<close> into the coin index again: the
  assertion \<open>!items.has(key)\<close> of \<open>CoinIndex.insert\<close> fails before \<open>size\<close> is decreased. The
  pool map holds \<open>G\<close> alone, of memory usage 500, and \<open>size\<close> is still 1000.
\<close>

theorem size_broken_by_failed_unindex:
  "insertTX 2 env_ixG (Mempool env_ixG) txH 0 = Some (Inr None, s_H)
   \<and> removeBlock' 2 env_ix s_H b101 [txCB, txG] = Some (Inr (), s_HG)
   \<and> size_p s_HG = sum_list (map (\<lambda>kv. memUsage (snd kv)) (map_p s_HG))
   \<and> getEntry s_HG ''H'' = Some eH
   \<and> removeEntry env_ix s_HG eH
       = (Inl (AssertionError ''CoinIndex.insert: !items.has(key)''), s_G)
   \<and> addBlock' 2 env_ix s_HG b101b [txCB, txG, txH]
       = Some (Inl (AssertionError ''CoinIndex.insert: !items.has(key)''), s_G)
   \<and> map_p s_G = [(''G'', eG)]
   \<and> size_p s_G = 1000
   \<and> sum_list (map (\<lambda>kv. memUsage (snd kv)) (map_p s_G)) = 500"
proof -
  have a: "insertTX 2 env_ixG (Mempool env_ixG) txH 0 = Some (Inr None, s_H)"
    by (simp add: index_eval eval_nat_numeral)
  have b: "removeBlock' 2 env_ix s_H b101 [txCB, txG] = Some (Inr (), s_HG)"
    by (simp add: index_eval eval_nat_numeral)
  have c: "size_p s_HG = sum_list (map (\<lambda>kv. memUsage (snd kv)) (map_p s_HG))"
    by (simp add: index_eval)
  have g: "getEntry s_HG ''H'' = Some eH"
    by (simp add: index_eval)
  have r: "removeEntry env_ix s_HG eH
       = (Inl (AssertionError ''CoinIndex.insert: !items.has(key)''), s_G)"
    by (simp add: index_eval)
  have d: "addBlock' 2 env_ix s_HG b101b [txCB, txG, txH]
       = Some (Inl (AssertionError ''CoinIndex.insert: !items.has(key)''), s_G)"
    by (simp add: index_eval eval_nat_numeral)
  have m: "map_p s_G = [(''G'', eG)]" by (simp add: s_G_def pool_of_def)
  have z: "size_p s_G = 1000" by (simp add: s_G_def pool_of_def)
  have u: "sum_list (map (\<lambda>kv. memUsage (snd kv)) (map_p s_G)) = 500"
    by (simp add: index_eval)
  show ?thesis by (intro conjI) (fact a b c g r d m z u)+
qed

section \<open>The size limit\<close>

lemma limitSize_s_ABD:
  "limitSize 2 env0 s_ABD ''A'' = Some (Inr True, s_BD)"
  by (simp add: limitSize_def evictEntry_def removeEntry_def untrackEntry_def updateAncestors_def
      getSpent_def getEntry_def hasEntry_def hasDepends_def cmpRate_def useDesc_def toDouble_def
      emit_def hash_e_def s_ABD_def s_BD_def pool_of_def mk_entry_def mk_tx_def
      numeral_2_eq_2 upt_rec txA_def txB_def txD_def memUsage_def Let_def env0_def options0_def
      removeFee_def)

text \<open>
  C1 (as amended). \<open>limitSize(added)\<close> returns false, and changes nothing, whenever
  \<open>size <= maxSize\<close> on entry, whether \<open>added\<close> is in the pool map or not; when
  \<open>size > maxSize\<close> on entry and it returns, it returns whether \<open>added\<close> is absent from the
  pool map. So for the hash of an entry that is in the pool map on entry, it returns true
  exactly when no entry with that hash is in the pool map on return; and on true
  \<open>insertTX\<close> throws the \<open>VerifyError\<close> "mempool full".
\<close>

theorem limitSize_true_iff_evicted:
  "(size_p s \<le> maxSize (opts env) \<longrightarrow> limitSize n env s added = Some (Inr False, s))
   \<and> (limitSize n env s added = Some (Inr b, s')
        \<longrightarrow> (b \<longleftrightarrow> size_p s > maxSize (opts env) \<and> \<not> hasEntry s' added))
   \<and> (hasEntry s added \<longrightarrow> limitSize n env s added = Some (Inr b, s')
        \<longrightarrow> (b \<longleftrightarrow> \<not> hasEntry s' added))
   \<and> (verify env s0 (fromTX env t v (chain_height (chn env))) v = (Inr (), s2)
        \<longrightarrow> addEntry ins env s2 (fromTX env t v (chain_height (chn env))) v = Some (Inr (), s3)
        \<longrightarrow> limitSize n env s3 (tx_hash t) = Some (Inr True, s4)
        \<longrightarrow> insertTX_admit ins n env s0 t v
              = Some (Inl (newVerifyError t ''insufficientfee'' ''mempool full'' 0 False), s4))"
proof -
  have 1: "size_p s \<le> maxSize (opts env) \<longrightarrow> limitSize n env s added = Some (Inr False, s)"
    by (simp add: limitSize_def Let_def)
  have 2: "limitSize n env s added = Some (Inr b, s')
        \<longrightarrow> (b \<longleftrightarrow> size_p s > maxSize (opts env) \<and> \<not> hasEntry s' added)"
    by (auto simp: limitSize_def Let_def split: if_splits option.splits sum.splits prod.splits)
  have 3: "hasEntry s added \<longrightarrow> limitSize n env s added = Some (Inr b, s')
        \<longrightarrow> (b \<longleftrightarrow> \<not> hasEntry s' added)"
  proof (intro impI)
    assume h: "hasEntry s added" and l: "limitSize n env s added = Some (Inr b, s')"
    show "b \<longleftrightarrow> \<not> hasEntry s' added"
    proof (cases "size_p s \<le> maxSize (opts env)")
      case True
      with 1 l have "b = False" "s' = s" by auto
      with h show ?thesis by simp
    next
      case False
      with 2 l show ?thesis by auto
    qed
  qed
  have 4: "verify env s0 (fromTX env t v (chain_height (chn env))) v = (Inr (), s2)
        \<longrightarrow> addEntry ins env s2 (fromTX env t v (chain_height (chn env))) v = Some (Inr (), s3)
        \<longrightarrow> limitSize n env s3 (tx_hash t) = Some (Inr True, s4)
        \<longrightarrow> insertTX_admit ins n env s0 t v
              = Some (Inl (newVerifyError t ''insufficientfee'' ''mempool full'' 0 False), s4)"
    by (simp add: insertTX_admit_def Let_def)
  from 1 2 3 4 show ?thesis by blast
qed

theorem limitSize_true_iff_evicted_witness:
  "hasEntry s_ABD ''A''
   \<and> limitSize 2 env0 s_ABD ''A'' = Some (Inr True, s_BD)
   \<and> \<not> hasEntry s_BD ''A''
   \<and> size_p s_BD \<le> maxSize (opts env0)
   \<and> limitSize 2 env0 s_BD ''A'' = Some (Inr False, s_BD)"
proof -
  have h: "hasEntry s_ABD ''A''"
    by (simp add: hasEntry_def s_ABD_def pool_of_def)
  have sz: "size_p s_BD \<le> maxSize (opts env0)"
    by (simp add: s_BD_def pool_of_def env0_def options0_def)
  from limitSize_true_iff_evicted [of s_ABD env0 2 "''A''" True s_BD] h limitSize_s_ABD
  have a: "\<not> hasEntry s_BD ''A''" by blast
  from limitSize_true_iff_evicted [of s_BD env0 2 "''A''"] sz
  have b: "limitSize 2 env0 s_BD ''A'' = Some (Inr False, s_BD)" by blast
  from h limitSize_s_ABD a sz b show ?thesis by blast
qed

text \<open>
  The claim as worded fails for the hash of the entry that \<open>insertTX\<close> has just added.
  The pool holds \<open>A\<close>, and the orphan \<open>O\<close> waits for \<open>T\<close>. \<open>insertTX(T)\<close> adds the entry of \<open>T\<close>
  (size 1000 of at most 1200), and \<open>addEntry\<close> replays \<open>O\<close>: with \<open>O\<close> the size is 1500, the
  \<open>limitSize\<close> of that replay evicts \<open>T\<close> together with its spender \<open>O\<close>, and \<open>O\<close> is reported
  as a bad orphan. Back in \<open>insertTX(T)\<close> the size is 500: \<open>limitSize(T)\<close> returns false
  although no entry with the hash \<open>T\<close> is in the pool map, and \<open>insertTX\<close> returns \<open>null\<close>.
\<close>

lemmas admission_eval = insertTX_body_def insertTX_sanity_def insertTX_known_def insertTX_admit_def
  exists_p_def hasOrphan_def hasEntry_def hasReject_def getCoinView_def getTX_def maybeOrphan_def
  limitOrphans_def isDoubleSpend_def isSpent_def emit_def newOrphan_def verify_def
  verify_scripts_def verifyInputs_def countAncestors_def updateAncestors_def addEntry_def
  trackEntry_def handleOrphans_def resolveOrphans_def getOrphan_def limitSize_def fromTX_def
  hash_e_def memUsage_def hasDepends_def cmpRate_def useDesc_def toDouble_def evictEntry_def
  removeEntry_def untrackEntry_def getSpent_def getEntry_def removeFee_def env0_def options0_def
  chain0_def policy0_def pool_of_def mk_tx_def Let_def addFee_def nop_def mk_entry_def upt_rec
  newVerifyError_def

theorem limitSize_false_after_eviction_counterexample:
  "fromTX env0 txT [(''X'', 0) \<mapsto> 100] (chain_height (chn env0)) = eT
   \<and> verify env0 s_A eT [(''X'', 0) \<mapsto> 100] = (Inr (), s_A)
   \<and> addEntry (insertTX 4 env0) env0 s_A eT [(''X'', 0) \<mapsto> 100] = Some (Inr (), s_A2)
   \<and> limitSize 4 env0 s_A2 (tx_hash txT) = Some (Inr False, s_A2)
   \<and> \<not> hasEntry s_A2 (tx_hash txT)
   \<and> insertTX 5 env0 s_A txT 8 = Some (Inr None, s_A2)"
proof -
  have f: "fromTX env0 txT [(''X'', 0) \<mapsto> 100] (chain_height (chn env0)) = eT"
    by (simp add: fromTX_def eT_def env0_def chain0_def txT_def mk_tx_def)
  have v: "verify env0 s_A eT [(''X'', 0) \<mapsto> 100] = (Inr (), s_A)"
    by (simp add: s_A_def admission_eval eT_def txT_def txO_def txA_def)
  have a: "addEntry (insertTX 4 env0) env0 s_A eT [(''X'', 0) \<mapsto> 100] = Some (Inr (), s_A2)"
    by (simp add: s_A_def s_A2_def admission_eval eT_def txT_def txO_def txA_def eval_nat_numeral)
  have l: "limitSize 4 env0 s_A2 (tx_hash txT) = Some (Inr False, s_A2)"
    by (simp add: s_A2_def admission_eval)
  have h: "\<not> hasEntry s_A2 (tx_hash txT)"
    by (simp add: s_A2_def admission_eval txT_def)
  have i: "insertTX 5 env0 s_A txT 8 = Some (Inr None, s_A2)"
    by (simp add: s_A_def s_A2_def admission_eval eT_def txT_def txO_def txA_def eval_nat_numeral)
  from f v a l h i show ?thesis by blast
qed

section \<open>Admission: double spends\<close>

lemma insertTX_known_not_exists:
  "insertTX_known env s t = None \<Longrightarrow> \<not> exists_p env s (tx_hash t)"
  by (auto simp: insertTX_known_def split: sum.splits bool.splits if_splits)

lemma isDoubleSpend_iff:
  "isDoubleSpend s t \<longleftrightarrow> (\<exists>p \<in> set (inputs t). spents s p \<noteq> None)"
  by (auto simp: isDoubleSpend_def isSpent_def list_ex_iff)

text \<open>
  C4 (as amended). A transaction with an input whose outpoint is a key of the spent map
  is never admitted: \<open>insertTX\<close> throws, and the pool map, the spent map, the orphan map
  and the size are as before. When the transaction passes the checks that come first
  (it is immutable, passes the sanity, coinbase, standardness and replace-by-fee checks,
  is final, is not already in the mempool, pending or an orphan, and has no coins on the
  chain), the error is the \<open>VerifyError\<close> of type \<open>duplicate\<close> with the reason
  \<open>bad-txns-inputs-spent\<close>, and the only change of the state is the event \<open>conflict\<close>.
\<close>

theorem insertTX_double_spend:
  assumes spent: "\<exists>p \<in> set (inputs t). spents s p \<noteq> None"
  shows "(\<exists>err s'. insertTX (Suc n) env s t i = Some (Inl err, s')
            \<and> map_p s' = map_p s \<and> spents s' = spents s \<and> orphans s' = orphans s
            \<and> size_p s' = size_p s)
       \<and> (\<not> mutable t \<longrightarrow> insertTX_sanity env t = None \<longrightarrow> insertTX_known env s t = None
            \<longrightarrow> insertTX (Suc n) env s t i
                = Some (Inl (newVerifyError t ''duplicate'' ''bad-txns-inputs-spent'' 0 False),
                        s\<lparr>events := events s @ [Ev_conflict (tx_hash t)]\<rparr>))"
proof -
  have ds: "isDoubleSpend s t" using spent by (simp add: isDoubleSpend_iff)
  have 2: "\<not> mutable t \<longrightarrow> insertTX_sanity env t = None \<longrightarrow> insertTX_known env s t = None
            \<longrightarrow> insertTX (Suc n) env s t i
                = Some (Inl (newVerifyError t ''duplicate'' ''bad-txns-inputs-spent'' 0 False),
                        s\<lparr>events := events s @ [Ev_conflict (tx_hash t)]\<rparr>)"
    using ds by (simp add: insertTX_body_def emit_def)
  have 1: "\<exists>err s'. insertTX (Suc n) env s t i = Some (Inl err, s')
            \<and> map_p s' = map_p s \<and> spents s' = spents s \<and> orphans s' = orphans s
            \<and> size_p s' = size_p s"
    using ds by (cases "insertTX_sanity env t"; cases "insertTX_known env s t")
                (auto simp: insertTX_body_def emit_def)
  from 1 2 show ?thesis by blast
qed

theorem insertTX_double_spend_witness:
  "(\<exists>p \<in> set (inputs txQ). spents s_P p \<noteq> None)
   \<and> \<not> mutable txQ \<and> insertTX_sanity env0 txQ = None \<and> insertTX_known env0 s_P txQ = None
   \<and> insertTX (Suc 0) env0 s_P txQ 7
       = Some (Inl (newVerifyError txQ ''duplicate'' ''bad-txns-inputs-spent'' 0 False),
               s_P\<lparr>events := events s_P @ [Ev_conflict (tx_hash txQ)]\<rparr>)"
proof -
  have a: "\<exists>p \<in> set (inputs txQ). spents s_P p \<noteq> None"
    by (simp add: txQ_def mk_tx_def s_P_def pool_of_def)
  have b: "\<not> mutable txQ" by (simp add: txQ_def mk_tx_def)
  have c: "insertTX_sanity env0 txQ = None"
    by (simp add: insertTX_sanity_def env0_def options0_def chain0_def txQ_def mk_tx_def)
  have d: "insertTX_known env0 s_P txQ = None"
    by (simp add: insertTX_known_def exists_p_def hasOrphan_def hasEntry_def env0_def chain0_def
        s_P_def pool_of_def txQ_def mk_tx_def)
  from insertTX_double_spend [OF a, of 0 env0 7] b c d
  have "insertTX (Suc 0) env0 s_P txQ 7
       = Some (Inl (newVerifyError txQ ''duplicate'' ''bad-txns-inputs-spent'' 0 False),
               s_P\<lparr>events := events s_P @ [Ev_conflict (tx_hash txQ)]\<rparr>)"
    by blast
  with a b c d show ?thesis by blast
qed

text \<open>
  The claim as worded fails for a transaction that does not pass an earlier check. The
  pool holds \<open>P\<close>, which spends \<open>X:0\<close>; \<open>P\<close> is sent again. Its input is a key of the spent
  map, yet \<open>insertTX\<close> throws the \<open>VerifyError\<close> of type \<open>alreadyknown\<close> and emits no
  \<open>conflict\<close> event.
\<close>

theorem insertTX_double_spend_counterexample:
  "isDoubleSpend s_P txP
   \<and> insertTX 1 env0 s_P txP 7
       = Some (Inl (newVerifyError txP ''alreadyknown'' ''txn-already-in-mempool'' 0 False), s_P)
   \<and> insertTX 1 env0 s_P txP 7
       \<noteq> Some (Inl (newVerifyError txP ''duplicate'' ''bad-txns-inputs-spent'' 0 False),
               emit s_P (Ev_conflict (tx_hash txP)))"
  by (simp add: insertTX_body_def insertTX_sanity_def insertTX_known_def exists_p_def
      isDoubleSpend_def isSpent_def hasOrphan_def hasEntry_def emit_def newVerifyError_def
      env0_def options0_def chain0_def s_P_def pool_of_def txP_def mk_tx_def)

section \<open>Admission: the reject filter and dropped orphans\<close>

text \<open>
  C9. When \<open>_addTX\<close> fails with a \<open>VerifyError\<close> thrown by \<open>insertTX\<close>, it throws the same
  error, and it adds the hash of the transaction to the reject filter exactly when the
  transaction has no witness and the error is not marked \<open>malleated\<close>; otherwise it leaves
  the filter as \<open>insertTX\<close> left it.
\<close>

theorem addTX'_reject_filter:
  assumes "insertTX n env s t (case i of None \<Rightarrow> - 1 | Some j \<Rightarrow> j) = Some (Inl (VerifyError ve), s1)"
  shows "addTX' n env s t i
           = Some (Inl (VerifyError ve),
                   s1\<lparr>rejects := (if \<not> hasWitness t \<and> \<not> malleated ve
                                    then rejects s1 @ [tx_hash t] else rejects s1)\<rparr>)"
  using assms by (simp add: addTX'_def)

theorem addTX'_reject_filter_witness:
  "insertTX 1 env0 s_P txQ (case None of None \<Rightarrow> - 1 | Some j \<Rightarrow> j)
     = Some (Inl (VerifyError \<lparr>ve_hash = ''Q'', ve_code = ''duplicate'',
                               ve_reason = ''bad-txns-inputs-spent'', ve_score = 0,
                               malleated = False\<rparr>),
             s_P\<lparr>events := [Ev_conflict ''Q'']\<rparr>)
   \<and> addTX' 1 env0 s_P txQ None
     = Some (Inl (VerifyError \<lparr>ve_hash = ''Q'', ve_code = ''duplicate'',
                               ve_reason = ''bad-txns-inputs-spent'', ve_score = 0,
                               malleated = False\<rparr>),
             s_P\<lparr>events := [Ev_conflict ''Q''], rejects := [''Q'']\<rparr>)"
proof -
  have a: "insertTX 1 env0 s_P txQ (case None of None \<Rightarrow> - 1 | Some j \<Rightarrow> j)
     = Some (Inl (VerifyError \<lparr>ve_hash = ''Q'', ve_code = ''duplicate'',
                               ve_reason = ''bad-txns-inputs-spent'', ve_score = 0,
                               malleated = False\<rparr>),
             s_P\<lparr>events := [Ev_conflict ''Q'']\<rparr>)"
    by (simp add: insertTX_body_def insertTX_sanity_def insertTX_known_def exists_p_def
        isDoubleSpend_def isSpent_def hasOrphan_def hasEntry_def emit_def newVerifyError_def
        env0_def options0_def chain0_def s_P_def pool_of_def txQ_def mk_tx_def)
  from addTX'_reject_filter [OF a]
  have "addTX' 1 env0 s_P txQ None
     = Some (Inl (VerifyError \<lparr>ve_hash = ''Q'', ve_code = ''duplicate'',
                               ve_reason = ''bad-txns-inputs-spent'', ve_score = 0,
                               malleated = False\<rparr>),
             s_P\<lparr>events := [Ev_conflict ''Q''], rejects := [''Q'']\<rparr>)"
    by (simp add: txQ_def mk_tx_def s_P_def pool_of_def)
  with a show ?thesis by blast
qed

lemma maybeOrphan_scan_None:
  "maybeOrphan_scan s v ins hs = None
     \<longleftrightarrow> (\<exists>p \<in> set ins. v p = None \<and> (hasReject s (fst p) \<or> hasEntry s (fst p)))"
  by (induction ins arbitrary: hs) auto

lemma maybeOrphan_scan_Some:
  "maybeOrphan_scan s v ins hs = Some hashes
     \<Longrightarrow> (hashes \<noteq> [] \<longleftrightarrow> hs \<noteq> [] \<or> (\<exists>p \<in> set ins. v p = None))"
proof (induction ins arbitrary: hs)
  case Nil
  then show ?case by simp
next
  case (Cons p ins)
  show ?case
  proof (cases "v p = None")
    case False
    with Cons show ?thesis by auto
  next
    case True
    with Cons.prems have nr: "\<not> hasReject s (fst p)" "\<not> hasEntry s (fst p)"
      by (auto split: if_splits)
    with Cons.prems True
    have "maybeOrphan_scan s v ins (if fst p \<in> set hs then hs else hs @ [fst p]) = Some hashes"
      by simp
    from Cons.IH [OF this] True show ?thesis by (auto split: if_splits)
  qed
qed

text \<open>
  C10 (as amended). When \<open>insertTX\<close> reaches \<open>maybeOrphan\<close> and \<open>maybeOrphan\<close> takes a drop
  path (an input that the coin view does not resolve names a parent that is in the reject
  filter or in the pool map; or some input is unresolved and the weight exceeds
  \<open>MAX_TX_WEIGHT\<close> or \<open>maxOrphans\<close> is 0), \<open>maybeOrphan\<close> returns the empty array and
  \<open>insertTX\<close> returns it, although the transaction is neither in the pool map nor in the
  orphan map. \<open>_addTX\<close> then returns the empty array without throwing when no flush of the
  cache is due (at most 10 seconds since the last one) or the flush succeeds, as it does
  without a persistent cache; when the flush fails, \<open>_addTX\<close> throws the error of the
  flush.
\<close>

theorem maybeOrphan_drop_returns_empty:
  assumes nm: "\<not> mutable t" and sane: "insertTX_sanity env t = None"
    and known: "insertTX_known env s t = None" and nds: "\<not> isDoubleSpend s t"
    and view: "getCoinView env s t = Inr v"
    and drop: "(\<exists>p \<in> set (inputs t). v p = None \<and> (hasReject s (fst p) \<or> hasEntry s (fst p)))
             \<or> ((\<exists>p \<in> set (inputs t). v p = None)
                 \<and> (getWeight t > MAX_TX_WEIGHT (pol env) \<or> maxOrphans (opts env) = 0))"
  shows "\<exists>s'. maybeOrphan env s t v i = (Inr (Some []), s')
           \<and> insertTX (Suc n) env s t i = Some (Inr (Some []), s')
           \<and> map_p s' = map_p s \<and> orphans s' = orphans s
           \<and> \<not> hasEntry s' (tx_hash t) \<and> \<not> hasOrphan s' (tx_hash t)
           \<and> (now env - lastFlush s' \<le> 10
                \<longrightarrow> addTX' (Suc n) env s t (Some i) = Some (Inr (Some []), s'))
           \<and> (now env - lastFlush s' > 10 \<longrightarrow> cache_flush env s' = None
                \<longrightarrow> addTX' (Suc n) env s t (Some i)
                    = Some (Inr (Some []), s'\<lparr>lastFlush := now env\<rparr>))
           \<and> (now env - lastFlush s' > 10 \<longrightarrow> \<not> persistent (opts env)
                \<longrightarrow> addTX' (Suc n) env s t (Some i)
                    = Some (Inr (Some []), s'\<lparr>lastFlush := now env\<rparr>))
           \<and> (now env - lastFlush s' > 10 \<longrightarrow> cache_flush env s' = Some e
                \<longrightarrow> addTX' (Suc n) env s t (Some i) = Some (Inl e, s'))"
proof -
  have ne: "\<not> exists_p env s (tx_hash t)"
    using known by (rule insertTX_known_not_exists)
  then have nh: "\<not> hasEntry s (tx_hash t)" "\<not> hasOrphan s (tx_hash t)"
    by (auto simp: exists_p_def split: if_splits)
  have "\<exists>s'. maybeOrphan env s t v i = (Inr (Some []), s')
           \<and> map_p s' = map_p s \<and> orphans s' = orphans s"
  proof (cases "maybeOrphan_scan s v (inputs t) []")
    case None
    then show ?thesis by (simp add: maybeOrphan_def)
  next
    case (Some hashes)
    then have "\<not> (\<exists>p \<in> set (inputs t). v p = None \<and> (hasReject s (fst p) \<or> hasEntry s (fst p)))"
      using maybeOrphan_scan_None [of s v "inputs t" "[]"] by simp
    with drop have d2: "\<exists>p \<in> set (inputs t). v p = None"
      "getWeight t > MAX_TX_WEIGHT (pol env) \<or> maxOrphans (opts env) = 0" by auto
    from maybeOrphan_scan_Some [OF Some] d2(1) have "hashes \<noteq> []" by simp
    with Some d2(2) show ?thesis by (auto simp: maybeOrphan_def)
  qed
  then obtain s' where s': "maybeOrphan env s t v i = (Inr (Some []), s')"
    "map_p s' = map_p s" "orphans s' = orphans s" by blast
  have ins: "insertTX (Suc n) env s t i = Some (Inr (Some []), s')"
    using nm sane known nds view s'(1) by (simp add: insertTX_body_def)
  have h: "\<not> hasEntry s' (tx_hash t)" "\<not> hasOrphan s' (tx_hash t)"
    using nh s'(2,3) by (auto simp: hasEntry_def hasOrphan_def)
  have a1: "now env - lastFlush s' \<le> 10
        \<longrightarrow> addTX' (Suc n) env s t (Some i) = Some (Inr (Some []), s')"
    using ins by (simp add: addTX'_def)
  have a2: "now env - lastFlush s' > 10 \<longrightarrow> cache_flush env s' = None
        \<longrightarrow> addTX' (Suc n) env s t (Some i) = Some (Inr (Some []), s'\<lparr>lastFlush := now env\<rparr>)"
    using ins by (simp add: addTX'_def)
  have a3: "now env - lastFlush s' > 10 \<longrightarrow> \<not> persistent (opts env)
        \<longrightarrow> addTX' (Suc n) env s t (Some i) = Some (Inr (Some []), s'\<lparr>lastFlush := now env\<rparr>)"
    using ins by (simp add: addTX'_def cache_flush_def)
  have a4: "now env - lastFlush s' > 10 \<longrightarrow> cache_flush env s' = Some e
        \<longrightarrow> addTX' (Suc n) env s t (Some i) = Some (Inl e, s')"
    using ins by (simp add: addTX'_def)
  show ?thesis
    by (intro exI [of _ s'] conjI) (fact s' ins h a1 a2 a3 a4)+
qed

lemma drop_txW:
  "\<not> mutable txW" "insertTX_sanity env0 txW = None" "insertTX_known env0 s_P txW = None"
  "\<not> isDoubleSpend s_P txW" "getCoinView env0 s_P txW = Inr Map.empty" "hasEntry s_P ''P''"
  "maybeOrphan env0 s_P txW Map.empty 7 = (Inr (Some []), s_P\<lparr>rejects := [''W'']\<rparr>)"
proof -
  show "\<not> mutable txW" by (simp add: txW_def mk_tx_def)
  show "insertTX_sanity env0 txW = None"
    by (simp add: insertTX_sanity_def env0_def options0_def chain0_def txW_def mk_tx_def)
  show "insertTX_known env0 s_P txW = None"
    by (simp add: insertTX_known_def exists_p_def hasOrphan_def hasEntry_def env0_def chain0_def
        s_P_def pool_of_def txW_def mk_tx_def)
  show "\<not> isDoubleSpend s_P txW"
    by (simp add: isDoubleSpend_def isSpent_def s_P_def pool_of_def txW_def mk_tx_def)
  show "getCoinView env0 s_P txW = Inr Map.empty"
    by (simp add: getCoinView_def getTX_def s_P_def pool_of_def txW_def mk_tx_def eP_def
        mk_entry_def txP_def)
  show "hasEntry s_P ''P''" by (simp add: hasEntry_def s_P_def pool_of_def)
  show "maybeOrphan env0 s_P txW Map.empty 7 = (Inr (Some []), s_P\<lparr>rejects := [''W'']\<rparr>)"
    by (simp add: maybeOrphan_def hasReject_def hasEntry_def s_P_def pool_of_def txW_def mk_tx_def)
qed

theorem maybeOrphan_drop_returns_empty_witness:
  "\<not> mutable txW \<and> insertTX_sanity env0 txW = None \<and> insertTX_known env0 s_P txW = None
   \<and> \<not> isDoubleSpend s_P txW \<and> getCoinView env0 s_P txW = Inr Map.empty
   \<and> hasEntry s_P ''P''
   \<and> maybeOrphan env0 s_P txW Map.empty 7 = (Inr (Some []), s_P\<lparr>rejects := [''W'']\<rparr>)
   \<and> now env0 - lastFlush (s_P\<lparr>rejects := [''W'']\<rparr>) > 10
   \<and> \<not> persistent (opts env0)
   \<and> addTX' (Suc 0) env0 s_P txW (Some 7)
       = Some (Inr (Some []), s_P\<lparr>rejects := [''W''], lastFlush := now env0\<rparr>)
   \<and> \<not> hasEntry (s_P\<lparr>rejects := [''W'']\<rparr>) (tx_hash txW)
   \<and> \<not> hasOrphan (s_P\<lparr>rejects := [''W'']\<rparr>) (tx_hash txW)"
proof -
  note d = drop_txW
  have g: "(\<exists>p \<in> set (inputs txW). Map.empty p = (None :: int option)
               \<and> (hasReject s_P (fst p) \<or> hasEntry s_P (fst p)))
             \<or> ((\<exists>p \<in> set (inputs txW). Map.empty p = (None :: int option))
                 \<and> (getWeight txW > MAX_TX_WEIGHT (pol env0) \<or> maxOrphans (opts env0) = 0))"
    using d(6) by (simp add: txW_def mk_tx_def)
  have fl: "now env0 - lastFlush (s_P\<lparr>rejects := [''W'']\<rparr>) > 10"
    by (simp add: env0_def s_P_def pool_of_def)
  have np: "\<not> persistent (opts env0)" by (simp add: env0_def options0_def)
  from maybeOrphan_drop_returns_empty [OF d(1-5) g, of 7 0 "OtherError ''write failed''"]
  obtain s' where r: "maybeOrphan env0 s_P txW Map.empty 7 = (Inr (Some []), s')"
    "\<not> hasEntry s' (tx_hash txW)" "\<not> hasOrphan s' (tx_hash txW)"
    "now env0 - lastFlush s' > 10 \<longrightarrow> \<not> persistent (opts env0)
       \<longrightarrow> addTX' (Suc 0) env0 s_P txW (Some 7) = Some (Inr (Some []), s'\<lparr>lastFlush := now env0\<rparr>)"
    by (elim exE conjE) blast
  from r(1) d(7) have s': "s' = s_P\<lparr>rejects := [''W'']\<rparr>" by simp
  from r(4) fl np have a: "addTX' (Suc 0) env0 s_P txW (Some 7)
       = Some (Inr (Some []), s_P\<lparr>rejects := [''W''], lastFlush := now env0\<rparr>)"
    unfolding s' by blast
  from r(2,3) have h: "\<not> hasEntry (s_P\<lparr>rejects := [''W'']\<rparr>) (tx_hash txW)"
    "\<not> hasOrphan (s_P\<lparr>rejects := [''W'']\<rparr>) (tx_hash txW)" unfolding s' by auto
  from d fl np a h show ?thesis by blast
qed

text \<open>
  The claim as worded (\<open>addTX\<close> completes without throwing) fails when the cache is
  persistent and its database fails: \<open>W\<close> spends an output that its parent \<open>P\<close>, which is
  in the pool, does not have; \<open>maybeOrphan\<close> drops \<open>W\<close> and \<open>insertTX\<close> returns the empty
  array; the last flush is more than 10 seconds old, the write of the batch fails, and
  \<open>_addTX\<close> throws that error.
\<close>

theorem addTX'_flush_counterexample:
  "insertTX (Suc 0) env_wf s_P txW 7 = Some (Inr (Some []), s_P\<lparr>rejects := [''W'']\<rparr>)
   \<and> addTX' (Suc 0) env_wf s_P txW (Some 7)
       = Some (Inl (OtherError ''write failed''), s_P\<lparr>rejects := [''W'']\<rparr>)
   \<and> \<not> hasEntry (s_P\<lparr>rejects := [''W'']\<rparr>) (tx_hash txW)
   \<and> \<not> hasOrphan (s_P\<lparr>rejects := [''W'']\<rparr>) (tx_hash txW)"
proof -
  have i: "insertTX (Suc 0) env_wf s_P txW 7 = Some (Inr (Some []), s_P\<lparr>rejects := [''W'']\<rparr>)"
    by (simp add: insertTX_body_def insertTX_sanity_def insertTX_known_def exists_p_def
        hasOrphan_def hasEntry_def hasReject_def isDoubleSpend_def isSpent_def getCoinView_def
        getTX_def maybeOrphan_def env_wf_def env0_def options0_def chain0_def s_P_def pool_of_def
        txW_def mk_tx_def eP_def mk_entry_def txP_def)
  have a: "addTX' (Suc 0) env_wf s_P txW (Some 7)
       = Some (Inl (OtherError ''write failed''), s_P\<lparr>rejects := [''W'']\<rparr>)"
    unfolding addTX'_def using i
    by (simp add: cache_flush_def env_wf_def env0_def options0_def s_P_def pool_of_def)
  have h: "\<not> hasEntry (s_P\<lparr>rejects := [''W'']\<rparr>) (tx_hash txW)"
    "\<not> hasOrphan (s_P\<lparr>rejects := [''W'']\<rparr>) (tx_hash txW)"
    by (simp_all add: hasEntry_def hasOrphan_def s_P_def pool_of_def txW_def mk_tx_def)
  from i a h show ?thesis by blast
qed

section \<open>Block connection\<close>

lemma addBlock'_s_PC:
  "addBlock' 3 env0 (s_PC\<lparr>rejects := [''R'']\<rparr>) b101 [txCB, txP] = Some (Inr (), s_C')"
  by (simp add: addBlock'_def getEntry_def removeEntry_def untrackEntry_def emit_def hash_e_def
      memUsage_def s_PC_def s_C'_def pool_of_def b101_def eP_def eC_def mk_entry_def txP_def txC_def
      txCB_def mk_tx_def Let_def cache_flush_def env0_def options0_def)

text \<open>
  C6 (as amended). When \<open>_addBlock\<close> completes, \<open>tip\<close> is the hash of the block in every
  case. The reject filter has been reset when the pool map was not empty at the start of
  the call; when the pool map was empty, \<open>_addBlock\<close> always completes, sets \<open>tip\<close> and
  leaves everything else, the reject filter included, as it was.
\<close>

theorem addBlock'_tip_and_rejects:
  "(addBlock' n env s b txs = Some (Inr (), s')
      \<longrightarrow> tip s' = block_hash b \<and> (map_p s \<noteq> [] \<longrightarrow> rejects s' = []))
   \<and> (map_p s = [] \<longrightarrow> addBlock' n env s b txs = Some (Inr (), s\<lparr>tip := block_hash b\<rparr>))"
  by (auto simp: addBlock'_def Let_def split: option.splits sum.splits prod.splits)

theorem addBlock'_tip_and_rejects_witness:
  "addBlock' 3 env0 (s_PC\<lparr>rejects := [''R'']\<rparr>) b101 [txCB, txP] = Some (Inr (), s_C')
   \<and> map_p (s_PC\<lparr>rejects := [''R'']\<rparr>) \<noteq> []
   \<and> tip s_C' = ''B101'' \<and> rejects s_C' = []
   \<and> map fst (map_p s_C') = [''C'']"
proof -
  have ne: "map_p (s_PC\<lparr>rejects := [''R'']\<rparr>) \<noteq> []" by (simp add: s_PC_def pool_of_def)
  from addBlock'_tip_and_rejects [of 3 env0 "s_PC\<lparr>rejects := [''R'']\<rparr>" b101 "[txCB, txP]" s_C']
    addBlock'_s_PC ne
  have "tip s_C' = block_hash b101" "rejects s_C' = []" by blast+
  then have "tip s_C' = ''B101''" "rejects s_C' = []" by (simp_all add: b101_def)
  moreover have "map fst (map_p s_C') = [''C'']" by (simp add: s_C'_def pool_of_def)
  ultimately show ?thesis using addBlock'_s_PC ne by blast
qed

text \<open>
  The claim as worded fails when the pool map is empty at the start: a mempool that holds
  no entry but has the hash \<open>R\<close> in its reject filter still has it there after
  \<open>_addBlock\<close>.
\<close>

theorem addBlock'_rejects_counterexample:
  "map_p ((pool_of [] [] 0)\<lparr>rejects := [''R'']\<rparr>) = []
   \<and> addBlock' 3 env0 ((pool_of [] [] 0)\<lparr>rejects := [''R'']\<rparr>) b101 [txCB, txP]
       = Some (Inr (), (pool_of [] [] 0)\<lparr>rejects := [''R''], tip := ''B101''\<rparr>)
   \<and> rejects ((pool_of [] [] 0)\<lparr>rejects := [''R''], tip := ''B101''\<rparr>) \<noteq> []"
  by (simp add: addBlock'_def pool_of_def b101_def)

section \<open>Errors while replaying transactions\<close>

lemma removeBlock_loop_listener:
  assumes "errorListener env" "removeBlock_loop n env b txs s = Some (r, s')"
  shows "r = Inr ()"
  using assms(2)
proof (induction txs arbitrary: s)
  case Nil
  then show ?case by simp
next
  case (Cons t rest)
  show ?case
  proof (cases "hasEntry s (tx_hash t)")
    case True
    with Cons show ?thesis by simp
  next
    case False
    from Cons.prems False obtain r1 s1 where i: "insertTX n env s t (- 1) = Some (r1, s1)"
      by (cases "insertTX n env s t (- 1)") (auto simp: Let_def)
    show ?thesis
    proof (cases r1)
      case (Inl e)
      with Cons.prems False i assms(1)
      have "removeBlock_loop n env b rest (emit s1 (Ev_error e)) = Some (r, s')"
        by (simp add: Let_def emit_error_def)
      then show ?thesis by (rule Cons.IH)
    next
      case (Inr res)
      with Cons.prems False i
      have "removeBlock_loop n env b rest (emit s1 (Ev_unconfirmed (tx_hash t) (block_hash b)))
              = Some (r, s')"
        by (simp add: Let_def)
      then show ?thesis by (rule Cons.IH)
    qed
  qed
qed

lemma removeBlock'_throws_flush_only:
  assumes "errorListener env" "removeBlock' n env s b txs = Some (Inl e, s')"
  shows "cache_flush env s' = Some e"
proof (cases "length (map_p s) = 0")
  case True
  with assms(2) show ?thesis by (simp add: removeBlock'_def)
next
  case False
  from assms(2) False obtain r1 s1 where l: "removeBlock_loop n env b (tl txs) s = Some (r1, s1)"
    by (cases "removeBlock_loop n env b (tl txs) s") (auto simp: removeBlock'_def)
  from removeBlock_loop_listener [OF assms(1) l] have "r1 = Inr ()" .
  with assms(2) False l show ?thesis
    by (auto simp: removeBlock'_def Let_def split: option.splits)
qed

text \<open>
  C8 (as amended). \<open>handleOrphans\<close> catches a \<open>VerifyError\<close> that \<open>insertTX\<close> throws for an
  orphan: it adds the hash to the reject filter when the transaction has no witness and
  the error is not malleated, emits \<open>bad orphan\<close> and goes on with the remaining orphans;
  any other error leaves \<open>handleOrphans\<close> at once. \<open>_removeBlock\<close> catches every error that
  \<open>insertTX\<close> throws, a \<open>VerifyError\<close> or not, and hands it to \<open>emit('error', e)\<close>. With a
  listener of \<open>error\<close> the event is emitted and the loop goes on with the remaining
  transactions: no error of \<open>insertTX\<close> leaves \<open>_removeBlock\<close>, which then throws only when
  the flush of the cache fails. Without a listener \<open>emit\<close> throws the error again, and it
  leaves \<open>_removeBlock\<close>, a \<open>VerifyError\<close> or not, before the tip is set.
\<close>

theorem replay_error_handling:
  "(raw orphan = Some t \<longrightarrow> ins s t (id_o orphan) = Some (Inl (VerifyError ve), s1)
      \<longrightarrow> handleOrphans_loop ins (orphan # rest) s
          = handleOrphans_loop ins rest
              (emit (if \<not> hasWitness t \<and> \<not> malleated ve
                     then s1\<lparr>rejects := rejects s1 @ [tx_hash t]\<rparr> else s1)
                    (Ev_bad_orphan (VerifyError ve) (id_o orphan))))
   \<and> (raw orphan = Some t \<longrightarrow> ins s t (id_o orphan) = Some (Inl err, s1) \<longrightarrow> \<not> isVerifyError err
      \<longrightarrow> handleOrphans_loop ins (orphan # rest) s = Some (Inl err, s1))
   \<and> (\<not> hasEntry s (tx_hash t) \<longrightarrow> insertTX n env s t (- 1) = Some (Inl err, s1)
      \<longrightarrow> errorListener env
      \<longrightarrow> removeBlock_loop n env b (t # rest') s
          = removeBlock_loop n env b rest' (emit s1 (Ev_error err)))
   \<and> (\<not> hasEntry s (tx_hash t) \<longrightarrow> insertTX n env s t (- 1) = Some (Inl err, s1)
      \<longrightarrow> \<not> errorListener env
      \<longrightarrow> removeBlock_loop n env b (t # rest') s = Some (Inl err, s1)
          \<and> (map_p s \<noteq> [] \<longrightarrow> removeBlock' n env s b (cb # t # rest') = Some (Inl err, s1)))
   \<and> (errorListener env \<longrightarrow> removeBlock_loop n env b txs s = Some (r, s') \<longrightarrow> r = Inr ())
   \<and> (errorListener env \<longrightarrow> removeBlock' n env s b txs = Some (Inl err, s')
      \<longrightarrow> cache_flush env s' = Some err)"
proof -
  have 1: "raw orphan = Some t \<longrightarrow> ins s t (id_o orphan) = Some (Inl (VerifyError ve), s1)
      \<longrightarrow> handleOrphans_loop ins (orphan # rest) s
          = handleOrphans_loop ins rest
              (emit (if \<not> hasWitness t \<and> \<not> malleated ve
                     then s1\<lparr>rejects := rejects s1 @ [tx_hash t]\<rparr> else s1)
                    (Ev_bad_orphan (VerifyError ve) (id_o orphan)))"
    by (simp add: Let_def)
  have 2: "raw orphan = Some t \<longrightarrow> ins s t (id_o orphan) = Some (Inl err, s1) \<longrightarrow> \<not> isVerifyError err
      \<longrightarrow> handleOrphans_loop ins (orphan # rest) s = Some (Inl err, s1)"
    by (cases err) (simp_all add: isVerifyError_def)
  have 3: "\<not> hasEntry s (tx_hash t) \<longrightarrow> insertTX n env s t (- 1) = Some (Inl err, s1)
      \<longrightarrow> errorListener env
      \<longrightarrow> removeBlock_loop n env b (t # rest') s
          = removeBlock_loop n env b rest' (emit s1 (Ev_error err))"
    by (simp add: Let_def emit_error_def)
  have 4: "\<not> hasEntry s (tx_hash t) \<longrightarrow> insertTX n env s t (- 1) = Some (Inl err, s1)
      \<longrightarrow> \<not> errorListener env
      \<longrightarrow> removeBlock_loop n env b (t # rest') s = Some (Inl err, s1)
          \<and> (map_p s \<noteq> [] \<longrightarrow> removeBlock' n env s b (cb # t # rest') = Some (Inl err, s1))"
    by (simp add: Let_def emit_error_def removeBlock'_def)
  have 5: "errorListener env \<longrightarrow> removeBlock_loop n env b txs s = Some (r, s') \<longrightarrow> r = Inr ()"
    using removeBlock_loop_listener by blast
  have 6: "errorListener env \<longrightarrow> removeBlock' n env s b txs = Some (Inl err, s')
      \<longrightarrow> cache_flush env s' = Some err"
    using removeBlock'_throws_flush_only by blast
  show ?thesis by (intro conjI) (fact 1 2 3 4 5 6)+
qed

lemma insertTX_io:
  "insertTX 1 env_io s_P txQ i = Some (Inl (OtherError ''database error''), s_P)"
  by (simp add: insertTX_body_def insertTX_sanity_def insertTX_known_def exists_p_def
      hasOrphan_def hasEntry_def env_io_def env0_def options0_def chain0_def s_P_def pool_of_def
      txQ_def mk_tx_def)

lemma insertTX_nl:
  "insertTX 1 env_nl s_P txQ i
     = Some (Inl (newVerifyError txQ ''duplicate'' ''bad-txns-inputs-spent'' 0 False),
             s_P\<lparr>events := [Ev_conflict ''Q'']\<rparr>)"
  by (simp add: insertTX_body_def insertTX_sanity_def insertTX_known_def exists_p_def
      isDoubleSpend_def isSpent_def hasOrphan_def hasEntry_def emit_def
      env_nl_def env0_def options0_def chain0_def s_P_def pool_of_def txQ_def mk_tx_def)

theorem replay_error_handling_witness:
  "raw orphanQ = Some txQ
   \<and> insertTX 1 env_io s_P txQ (id_o orphanQ) = Some (Inl (OtherError ''database error''), s_P)
   \<and> \<not> isVerifyError (OtherError ''database error'')
   \<and> handleOrphans_loop (insertTX 1 env_io) [orphanQ] s_P
        = Some (Inl (OtherError ''database error''), s_P)
   \<and> \<not> hasEntry s_P (tx_hash txQ)
   \<and> errorListener env_io
   \<and> removeBlock_loop 1 env_io b101 [txQ] s_P
        = Some (Inr (), s_P\<lparr>events := [Ev_error (OtherError ''database error'')]\<rparr>)
   \<and> \<not> errorListener env_nl
   \<and> map_p s_P \<noteq> []
   \<and> insertTX 1 env_nl s_P txQ (- 1)
        = Some (Inl (newVerifyError txQ ''duplicate'' ''bad-txns-inputs-spent'' 0 False),
                s_P\<lparr>events := [Ev_conflict ''Q'']\<rparr>)
   \<and> removeBlock' 1 env_nl s_P b101 [txCB, txQ]
        = Some (Inl (newVerifyError txQ ''duplicate'' ''bad-txns-inputs-spent'' 0 False),
                s_P\<lparr>events := [Ev_conflict ''Q'']\<rparr>)"
proof -
  have a: "raw orphanQ = Some txQ" by (simp add: orphanQ_def newOrphan_def)
  have b: "insertTX 1 env_io s_P txQ (id_o orphanQ) = Some (Inl (OtherError ''database error''), s_P)"
    by (rule insertTX_io)
  have b': "insertTX 1 env_io s_P txQ (- 1) = Some (Inl (OtherError ''database error''), s_P)"
    by (rule insertTX_io)
  have c: "\<not> isVerifyError (OtherError ''database error'')" by (simp add: isVerifyError_def)
  have d: "\<not> hasEntry s_P (tx_hash txQ)"
    by (simp add: hasEntry_def s_P_def pool_of_def txQ_def mk_tx_def)
  have li: "errorListener env_io" by (simp add: env_io_def env0_def)
  have nl: "\<not> errorListener env_nl" by (simp add: env_nl_def env0_def)
  have ne: "map_p s_P \<noteq> []" by (simp add: s_P_def pool_of_def)
  note th = replay_error_handling [of orphanQ txQ "insertTX 1 env_io" s_P _ s_P "[]"
      "OtherError ''database error''" 1 env_io b101 "[]"]
  from th a b c have e: "handleOrphans_loop (insertTX 1 env_io) [orphanQ] s_P
        = Some (Inl (OtherError ''database error''), s_P)" by blast
  from th d b' li have "removeBlock_loop 1 env_io b101 [txQ] s_P
        = removeBlock_loop 1 env_io b101 [] (emit s_P (Ev_error (OtherError ''database error'')))"
    by blast
  then have f: "removeBlock_loop 1 env_io b101 [txQ] s_P
        = Some (Inr (), s_P\<lparr>events := [Ev_error (OtherError ''database error'')]\<rparr>)"
    by (simp add: emit_def s_P_def pool_of_def)
  note th2 = replay_error_handling [of _ txQ _ s_P _ "s_P\<lparr>events := [Ev_conflict ''Q'']\<rparr>" _
      "newVerifyError txQ ''duplicate'' ''bad-txns-inputs-spent'' 0 False" 1 env_nl b101 "[]" txCB]
  from th2 d insertTX_nl [of "- 1"] nl ne
  have g: "removeBlock' 1 env_nl s_P b101 [txCB, txQ]
        = Some (Inl (newVerifyError txQ ''duplicate'' ''bad-txns-inputs-spent'' 0 False),
                s_P\<lparr>events := [Ev_conflict ''Q'']\<rparr>)"
    by blast
  show ?thesis
    by (intro conjI) (fact a b c e d li f nl ne insertTX_nl g)+
qed

text \<open>
  The claim as worded fails for \<open>_removeBlock\<close> both ways. With a listener of \<open>error\<close>
  attached, the database of the chain fails while \<open>Q\<close> is put back: \<open>insertTX\<close> throws that
  error, which is no \<open>VerifyError\<close>, and \<open>_removeBlock\<close> still completes, with the error in
  an \<open>error\<close> event. Without a listener, \<open>insertTX\<close> throws a \<open>VerifyError\<close> for \<open>Q\<close>, which
  spends what \<open>P\<close> spends, and \<open>_removeBlock\<close> does not go on: the \<open>VerifyError\<close> leaves it
  and the tip stays as it was.
\<close>

theorem removeBlock'_swallows_counterexample:
  "errorListener env_io
   \<and> insertTX 1 env_io s_P txQ (- 1) = Some (Inl (OtherError ''database error''), s_P)
   \<and> \<not> isVerifyError (OtherError ''database error'')
   \<and> removeBlock' 1 env_io s_P b101 [txCB, txQ]
       = Some (Inr (), s_P\<lparr>events := [Ev_error (OtherError ''database error'')],
                              tip := ''B100''\<rparr>)
   \<and> \<not> errorListener env_nl
   \<and> insertTX 1 env_nl s_P txQ (- 1)
        = Some (Inl (newVerifyError txQ ''duplicate'' ''bad-txns-inputs-spent'' 0 False),
                s_P\<lparr>events := [Ev_conflict ''Q'']\<rparr>)
   \<and> isVerifyError (newVerifyError txQ ''duplicate'' ''bad-txns-inputs-spent'' 0 False)
   \<and> removeBlock' 1 env_nl s_P b101 [txCB, txQ, txD]
        = Some (Inl (newVerifyError txQ ''duplicate'' ''bad-txns-inputs-spent'' 0 False),
                s_P\<lparr>events := [Ev_conflict ''Q'']\<rparr>)
   \<and> tip (s_P\<lparr>events := [Ev_conflict ''Q'']\<rparr>) = ''B0''"
proof -
  have li: "errorListener env_io" by (simp add: env_io_def env0_def)
  have nl: "\<not> errorListener env_nl" by (simp add: env_nl_def env0_def)
  have a: "insertTX 1 env_io s_P txQ (- 1) = Some (Inl (OtherError ''database error''), s_P)"
    by (rule insertTX_io)
  have c: "\<not> isVerifyError (OtherError ''database error'')" by (simp add: isVerifyError_def)
  have c2: "isVerifyError (newVerifyError txQ ''duplicate'' ''bad-txns-inputs-spent'' 0 False)"
    by (simp add: isVerifyError_def newVerifyError_def)
  have d: "\<not> hasEntry s_P (tx_hash txQ)"
    by (simp add: hasEntry_def s_P_def pool_of_def txQ_def mk_tx_def)
  have ne: "length (map_p s_P) \<noteq> 0" by (simp add: s_P_def pool_of_def)
  have l: "removeBlock_loop 1 env_io b101 [txQ] s_P
             = Some (Inr (), emit s_P (Ev_error (OtherError ''database error'')))"
    using a d li by (simp add: emit_error_def)
  have fl: "cache_flush env_io s2 = None" for s2
    by (simp add: cache_flush_def env_io_def env0_def options0_def)
  have "removeBlock' 1 env_io s_P b101 [txCB, txQ]
          = Some (Inr (), (emit s_P (Ev_error (OtherError ''database error'')))
                            \<lparr>rejects := [], tip := prevBlock b101\<rparr>)"
    unfolding removeBlock'_def using l ne by (simp add: fl)
  then have e: "removeBlock' 1 env_io s_P b101 [txCB, txQ]
       = Some (Inr (), s_P\<lparr>events := [Ev_error (OtherError ''database error'')],
                              tip := ''B100''\<rparr>)"
    by (simp add: emit_def s_P_def pool_of_def b101_def)
  have l2: "removeBlock_loop 1 env_nl b101 [txQ, txD] s_P
             = Some (Inl (newVerifyError txQ ''duplicate'' ''bad-txns-inputs-spent'' 0 False),
                     s_P\<lparr>events := [Ev_conflict ''Q'']\<rparr>)"
    using insertTX_nl [of "- 1"] d nl by (simp add: emit_error_def)
  have g: "removeBlock' 1 env_nl s_P b101 [txCB, txQ, txD]
        = Some (Inl (newVerifyError txQ ''duplicate'' ''bad-txns-inputs-spent'' 0 False),
                s_P\<lparr>events := [Ev_conflict ''Q'']\<rparr>)"
    unfolding removeBlock'_def using l2 ne by simp
  have t: "tip (s_P\<lparr>events := [Ev_conflict ''Q'']\<rparr>) = ''B0''"
    by (simp add: s_P_def pool_of_def)
  show ?thesis
    by (intro conjI) (fact li a c e nl insertTX_nl c2 g t)+
qed

section \<open>Block disconnection\<close>

lemma heights_from_refl: "heights_from H s s"
  by (auto simp: heights_from_def)

lemma heights_from_trans:
  "heights_from H s s1 \<Longrightarrow> heights_from H s1 s2 \<Longrightarrow> heights_from H s s2"
  unfolding heights_from_def by metis

lemma heights_from_same: "map_p s' = map_p s \<Longrightarrow> heights_from H s s'"
  by (auto simp: heights_from_def getEntry_def)

lemma heights_from_same_r: "map_p s2 = map_p s1 \<Longrightarrow> heights_from H s s1 \<Longrightarrow> heights_from H s s2"
  by (auto simp: heights_from_def getEntry_def)

lemma heights_from_emit: "heights_from H s (emit s' ev) = heights_from H s s'"
  by (simp add: heights_from_def getEntry_def emit_def)

lemma heights_trackEntry:
  assumes "trackEntry env s entry view = (r, s')" "height entry = H"
  shows "heights_from H s s'"
proof -
  from trackEntry_cases [OF assms(1)]
  have "map_p s' = map_p s \<or> map_p s' = AList.update (tx_hash (tx entry)) entry (map_p s)"
    by auto
  then show ?thesis using assms(2)
    by (auto simp: heights_from_def getEntry_def update_conv' split: if_splits)
qed

lemma heights_untrackEntry:
  assumes "untrackEntry env s entry = (r, s')"
  shows "heights_from H s s'"
proof -
  from untrackEntry_cases [OF assms]
  have "map_p s' = map_p s \<or> map_p s' = AList.delete (tx_hash (tx entry)) (map_p s)"
    by auto
  then show ?thesis
    by (auto simp: heights_from_def getEntry_def delete_conv' split: if_splits)
qed

lemma heights_removeEntry:
  assumes "removeEntry env s entry = (r, s')"
  shows "heights_from H s s'"
proof (cases "untrackEntry env s entry")
  case (Pair r1 s1)
  from heights_untrackEntry [OF Pair] have 1: "heights_from H s s1" .
  from assms Pair have "s' = s1 \<or> s' = emit s1 (Ev_remove_entry (hash_e entry))"
    by (auto simp: removeEntry_def split: sum.splits)
  with 1 show ?thesis by (auto simp: heights_from_emit)
qed

lemma heights_updateAncestors:
  assumes "\<forall>p c. height (f p c) = height p"
  shows "heights_from H s (snd (updateAncestors env s entry f))"
  unfolding heights_from_def
proof (intro allI impI)
  fix h e
  let ?r = "countAncestors' (maxAncestors (opts env)) f entry (inputs (tx entry)) ([], map_p s)"
  assume "getEntry (snd (updateAncestors env s entry f)) h = Some e"
  then have g: "map_of (snd ?r) h = Some e" by (simp add: getEntry_updateAncestors)
  obtain new where "trav_ok f entry ([], map_p s) ?r new"
    using countAncestors'_shape by blast
  then have "map_of (snd ?r) h = map_of (map_p s) h
                \<or> map_of (snd ?r) h = map_option (\<lambda>p. f p entry) (map_of (map_p s) h)"
    by (auto simp: trav_ok_def)
  then show "height e = H \<or> (\<exists>e0. getEntry s h = Some e0 \<and> height e0 = height e)"
  proof
    assume "map_of (snd ?r) h = map_of (map_p s) h"
    with g show ?thesis by (simp add: getEntry_def)
  next
    assume "map_of (snd ?r) h = map_option (\<lambda>p. f p entry) (map_of (map_p s) h)"
    with g obtain p where "map_of (map_p s) h = Some p" "e = f p entry" by auto
    with assms show ?thesis by (simp add: getEntry_def)
  qed
qed

lemma heights_updateAncestors_addFee:
  "heights_from H s (snd (updateAncestors env s entry addFee))"
  by (rule heights_updateAncestors) (simp add: addFee_def)

lemma heights_updateAncestors_removeFee:
  "heights_from H s (snd (updateAncestors env s entry removeFee))"
  by (rule heights_updateAncestors) (simp add: removeFee_def)

lemma heights_removeSpenders_loop:
  assumes "keeps_heights H rec" "removeSpenders_loop rec env h is s = Some (r, s')"
  shows "heights_from H s s'"
  using assms(2)
proof (induction "is" arbitrary: s)
  case Nil
  then show ?case by (simp add: heights_from_refl)
next
  case (Cons i rest)
  show ?case
  proof (cases "getSpent s h i")
    case None
    with Cons show ?thesis by simp
  next
    case (Some spender)
    from Cons.prems Some obtain r1 s1 where r1: "rec s spender = Some (r1, s1)"
      by (cases "rec s spender") auto
    from assms(1) r1 have w1: "heights_from H s s1" by (auto simp: keeps_heights_def)
    show ?thesis
    proof (cases r1)
      case (Inl e)
      with Cons.prems Some r1 have "s' = s1" by simp
      with w1 show ?thesis by simp
    next
      case (Inr u)
      obtain r2 s2 where r2: "removeEntry env s1 spender = (r2, s2)"
        by (cases "removeEntry env s1 spender")
      have w2: "heights_from H s s2"
        using heights_from_trans [OF w1 heights_removeEntry [OF r2]] .
      show ?thesis
      proof (cases r2)
        case (Inl e)
        with Cons.prems Some r1 Inr r2 have "s' = s2" by simp
        with w2 show ?thesis by simp
      next
        case Inr2: (Inr u2)
        with Cons.prems Some r1 Inr r2
        have "removeSpenders_loop rec env h rest s2 = Some (r, s')" by simp
        from heights_from_trans [OF w2 Cons.IH [OF this]] show ?thesis .
      qed
    qed
  qed
qed

lemma heights_removeSpenders: "keeps_heights H (removeSpenders n env)"
proof (induction n)
  case 0
  show ?case by (simp add: keeps_heights_def)
next
  case (Suc n)
  show ?case
    unfolding keeps_heights_def
  proof (intro allI impI)
    fix s e r s'
    assume "removeSpenders (Suc n) env s e = Some (r, s')"
    then show "heights_from H s s'"
      using heights_removeSpenders_loop [OF Suc] by simp
  qed
qed

lemma heights_evictEntry:
  assumes "evictEntry n env s entry = Some (r, s')"
  shows "heights_from H s s'"
proof -
  from assms obtain r1 s1 where r1: "removeSpenders n env s entry = Some (r1, s1)"
    by (cases "removeSpenders n env s entry") (auto simp: evictEntry_def)
  from heights_removeSpenders [of H n] r1 have w1: "heights_from H s s1"
    by (auto simp: keeps_heights_def)
  show ?thesis
  proof (cases r1)
    case (Inl e)
    with assms r1 have "s' = s1" by (simp add: evictEntry_def)
    with w1 show ?thesis by simp
  next
    case (Inr u)
    let ?s2 = "snd (updateAncestors env s1 entry removeFee)"
    have w2: "heights_from H s ?s2"
      using heights_from_trans [OF w1 heights_updateAncestors_removeFee] .
    from assms r1 Inr have "removeEntry env ?s2 entry = (r, s')" by (simp add: evictEntry_def)
    from heights_from_trans [OF w2 heights_removeEntry [OF this]] show ?thesis .
  qed
qed

lemma heights_limitSize_expire:
  assumes "limitSize_expire n env ks queue s = Some (r, s')"
  shows "heights_from H s s'"
  using assms
proof (induction ks arbitrary: queue s)
  case Nil
  then show ?case by (simp add: heights_from_refl)
next
  case (Cons k ks)
  show ?case
  proof (cases "getEntry s k")
    case None
    with Cons show ?thesis by simp
  next
    case (Some entry)
    show ?thesis
    proof (cases "hasDepends s (tx entry)")
      case True
      with Cons Some show ?thesis by simp
    next
      case False
      show ?thesis
      proof (cases "now env < time entry + expiryTime (opts env)")
        case True
        with Cons Some False show ?thesis by simp
      next
        case F2: False
        from Cons.prems Some False F2 obtain r1 s1 where e1: "evictEntry n env s entry = Some (r1, s1)"
          by (cases "evictEntry n env s entry") auto
        note w1 = heights_evictEntry [OF e1, of H]
        show ?thesis
        proof (cases r1)
          case (Inl e)
          with Cons.prems Some False F2 e1 have "s' = s1" by simp
          with w1 show ?thesis by simp
        next
          case (Inr u)
          with Cons.prems Some False F2 e1
          have "limitSize_expire n env ks queue s1 = Some (r, s')" by simp
          from heights_from_trans [OF w1 Cons.IH [OF this]] show ?thesis .
        qed
      qed
    qed
  qed
qed

lemma heights_limitSize_shift:
  assumes "limitSize_shift n env th queue s = Some (r, s')"
  shows "heights_from H s s'"
  using assms
proof (induction queue arbitrary: s)
  case Nil
  then show ?case by (simp add: heights_from_refl)
next
  case (Cons entry queue)
  show ?case
  proof (cases "hasEntry s (hash_e entry)")
    case False
    with Cons.prems have "s' = s" by simp
    then show ?thesis by (simp add: heights_from_refl)
  next
    case True
    with Cons.prems obtain r1 s1 where e1: "evictEntry n env s entry = Some (r1, s1)"
      by (cases "evictEntry n env s entry") auto
    note w1 = heights_evictEntry [OF e1, of H]
    show ?thesis
    proof (cases r1)
      case (Inl e)
      with Cons.prems True e1 have "s' = s1" by simp
      with w1 show ?thesis by simp
    next
      case (Inr u)
      show ?thesis
      proof (cases "of_int (size_p s1) \<le> th")
        case T2: True
        with Cons.prems True e1 Inr have "s' = s1" by simp
        with w1 show ?thesis by simp
      next
        case F2: False
        with Cons.prems True e1 Inr
        have "limitSize_shift n env th queue s1 = Some (r, s')" by simp
        from heights_from_trans [OF w1 Cons.IH [OF this]] show ?thesis .
      qed
    qed
  qed
qed

lemma heights_limitSize:
  assumes "limitSize n env s added = Some (r, s')"
  shows "heights_from H s s'"
proof (cases "size_p s \<le> maxSize (opts env)")
  case True
  with assms have "s' = s" by (simp add: limitSize_def Let_def)
  then show ?thesis by (simp add: heights_from_refl)
next
  case False
  let ?th = "of_int (maxSize (opts env)) - of_int (maxSize (opts env)) / (10 :: real)"
  from assms False obtain r1 s1 where
    e1: "limitSize_expire n env (map fst (map_p s)) [] s = Some (r1, s1)"
    by (cases "limitSize_expire n env (map fst (map_p s)) [] s") (auto simp: limitSize_def Let_def)
  note w1 = heights_limitSize_expire [OF e1, of H]
  show ?thesis
  proof (cases r1)
    case (Inl e)
    with assms False e1 have "s' = s1" by (simp add: limitSize_def Let_def)
    with w1 show ?thesis by simp
  next
    case (Inr queue)
    show ?thesis
    proof (cases "of_int (size_p s1) \<le> ?th")
      case True
      with assms False e1 Inr have "s' = s1" by (simp add: limitSize_def Let_def)
      with w1 show ?thesis by simp
    next
      case F2: False
      with assms False e1 Inr obtain r2 s2 where
        e2: "limitSize_shift n env ?th queue s1 = Some (r2, s2)"
        by (cases "limitSize_shift n env ?th queue s1") (auto simp: limitSize_def Let_def)
      note w2 = heights_from_trans [OF w1 heights_limitSize_shift [OF e2, of H]]
      from assms False e1 Inr F2 e2 have "s' = s2"
        by (cases r2) (auto simp: limitSize_def Let_def)
      with w2 show ?thesis by simp
    qed
  qed
qed

lemma map_p_removeOrphan_loop:
  "removeOrphan_loop hash prevs s = (r, s') \<Longrightarrow> map_p s' = map_p s"
proof (induction prevs arbitrary: s)
  case Nil
  then show ?case by simp
next
  case (Cons prev rest)
  show ?case
  proof (cases "waiting s prev")
    case None
    with Cons show ?thesis by simp
  next
    case (Some st)
    show ?thesis
    proof (cases "hash \<in> set st")
      case False
      with Cons.prems Some show ?thesis by simp
    next
      case True
      let ?s1 = "s\<lparr>waiting := (waiting s)(prev \<mapsto> removeAll hash st)\<rparr>"
      let ?s2 = "if length (removeAll hash st) = 0 then ?s1\<lparr>waiting := (waiting ?s1)(prev := None)\<rparr> else ?s1"
      from Cons.prems Some True have "removeOrphan_loop hash rest ?s2 = (r, s')"
        by (simp add: Let_def)
      from Cons.IH [OF this] show ?thesis by (simp split: if_splits)
    qed
  qed
qed

lemma map_p_removeOrphan:
  assumes "removeOrphan s hash = (r, s')"
  shows "map_p s' = map_p s"
proof (cases "getOrphan s hash")
  case None
  with assms show ?thesis by (simp add: removeOrphan_def)
next
  case (Some orphan)
  show ?thesis
  proof (cases "raw orphan")
    case None
    with assms Some show ?thesis by (auto simp: removeOrphan_def)
  next
    case St: (Some t)
    obtain r1 s1 where l: "removeOrphan_loop hash (getPrevout t) s = (r1, s1)"
      by (cases "removeOrphan_loop hash (getPrevout t) s")
    from map_p_removeOrphan_loop [OF l] have "map_p s1 = map_p s" .
    with assms Some St l show ?thesis
      by (cases r1) (auto simp: removeOrphan_def emit_def)
  qed
qed

lemma map_p_limitOrphans:
  assumes "limitOrphans env s = (r, s')"
  shows "map_p s' = map_p s"
proof (cases "int (length (orphans s)) < maxOrphans (opts env)")
  case True
  with assms show ?thesis by (simp add: limitOrphans_def)
next
  case False
  show ?thesis
  proof (cases "pick (map fst (orphans s)) (randomRange env 0 (length (orphans s)))")
    case None
    with assms False show ?thesis by (simp add: limitOrphans_def Let_def)
  next
    case (Some hash)
    obtain r1 s1 where l: "removeOrphan s hash = (r1, s1)" by (cases "removeOrphan s hash")
    from map_p_removeOrphan [OF l] have "map_p s1 = map_p s" .
    with assms False Some l show ?thesis
      by (cases r1) (auto simp: limitOrphans_def Let_def)
  qed
qed

lemma map_p_maybeOrphan_wait: "map_p (maybeOrphan_wait hash hs s) = map_p s"
  by (induction hs arbitrary: s) (simp_all add: Let_def)

lemma map_p_maybeOrphan:
  assumes "maybeOrphan env s t v i = (r, s')"
  shows "map_p s' = map_p s"
proof (cases "maybeOrphan_scan s v (inputs t) []")
  case None
  with assms show ?thesis by (auto simp: maybeOrphan_def)
next
  case (Some hashes)
  show ?thesis
  proof (cases "length hashes = 0 \<or> getWeight t > MAX_TX_WEIGHT (pol env) \<or> maxOrphans (opts env) = 0")
    case True
    with assms Some show ?thesis by (auto simp: maybeOrphan_def split: if_splits)
  next
    case False
    obtain r1 s1 where l: "limitOrphans env s = (r1, s1)" by (cases "limitOrphans env s")
    from map_p_limitOrphans [OF l] have "map_p s1 = map_p s" .
    with assms Some False l show ?thesis
      by (cases r1) (auto simp: maybeOrphan_def Let_def emit_def map_p_maybeOrphan_wait)
  qed
qed

lemma map_p_verify: "map_p (snd (verify env s entry v)) = map_p s"
  by (simp add: verify_def Let_def split: sum.split bool.split prod.split)

lemma map_p_resolveOrphans_loop:
  "resolveOrphans_loop hs resolved s = (r, s') \<Longrightarrow> map_p s' = map_p s"
proof (induction hs arbitrary: resolved s)
  case Nil
  then show ?case by simp
next
  case (Cons hash rest)
  show ?case
  proof (cases "getOrphan s hash")
    case None
    with Cons.prems show ?thesis by simp
  next
    case (Some orphan)
    let ?o1 = "orphan\<lparr>missing := missing orphan - 1\<rparr>"
    let ?s1 = "s\<lparr>orphans := AList.update hash ?o1 (orphans s)\<rparr>"
    show ?thesis
    proof (cases "missing ?o1 = 0")
      case True
      with Cons.prems Some
      have "resolveOrphans_loop rest (resolved @ [?o1]) (?s1\<lparr>orphans := AList.delete hash (orphans ?s1)\<rparr>)
              = (r, s')"
        by (simp add: Let_def)
      from Cons.IH [OF this] show ?thesis by simp
    next
      case False
      with Cons.prems Some have "resolveOrphans_loop rest resolved ?s1 = (r, s')"
        by (simp add: Let_def)
      from Cons.IH [OF this] show ?thesis by simp
    qed
  qed
qed

lemma map_p_resolveOrphans:
  assumes "resolveOrphans s parent = (r, s')"
  shows "map_p s' = map_p s"
proof (cases "waiting s (tx_hash parent)")
  case None
  with assms show ?thesis by (simp add: resolveOrphans_def)
next
  case (Some st)
  show ?thesis
  proof (cases "length st > 0")
    case False
    with assms Some show ?thesis by (simp add: resolveOrphans_def)
  next
    case True
    obtain r1 s1 where l: "resolveOrphans_loop st [] s = (r1, s1)"
      by (cases "resolveOrphans_loop st [] s")
    from map_p_resolveOrphans_loop [OF l] have "map_p s1 = map_p s" .
    with assms Some True l show ?thesis
      by (cases r1) (auto simp: resolveOrphans_def Let_def)
  qed
qed

lemma heights_handleOrphans_loop:
  assumes "ins_heights H ins" "handleOrphans_loop ins os s = Some (r, s')"
  shows "heights_from H s s'"
  using assms(2)
proof (induction os arbitrary: s)
  case Nil
  then show ?case by (simp add: heights_from_refl)
next
  case (Cons orphan rest)
  show ?case
  proof (cases "raw orphan")
    case None
    with Cons show ?thesis by simp
  next
    case (Some t)
    from Cons.prems Some obtain r1 s1 where i1: "ins s t (id_o orphan) = Some (r1, s1)"
      by (cases "ins s t (id_o orphan)") auto
    from assms(1) i1 have w1: "heights_from H s s1" by (auto simp: ins_heights_def)
    show ?thesis
    proof (cases r1)
      case (Inl err)
      show ?thesis
      proof (cases err)
        case (VerifyError ve)
        let ?s2 = "if \<not> hasWitness t \<and> \<not> malleated ve
                   then s1\<lparr>rejects := rejects s1 @ [tx_hash t]\<rparr> else s1"
        let ?s3 = "emit ?s2 (Ev_bad_orphan err (id_o orphan))"
        have m: "map_p ?s3 = map_p s1" by (simp add: emit_def)
        from Cons.prems Some i1 Inl VerifyError
        have "handleOrphans_loop ins rest ?s3 = Some (r, s')" by (simp add: Let_def)
        from heights_from_trans [OF heights_from_same_r [OF m w1] Cons.IH [OF this]]
        show ?thesis .
      next
        case (AssertionError m)
        with Cons.prems Some i1 Inl have "s' = s1" by simp
        with w1 show ?thesis by simp
      next
        case (OtherError m)
        with Cons.prems Some i1 Inl have "s' = s1" by simp
        with w1 show ?thesis by simp
      qed
    next
      case (Inr res)
      show ?thesis
      proof (cases "\<exists>ms. res = Some ms \<and> length ms > 0")
        case False
        with Cons.prems Some i1 Inr have "handleOrphans_loop ins rest s1 = Some (r, s')"
          by (cases res) auto
        from heights_from_trans [OF w1 Cons.IH [OF this]] show ?thesis .
      next
        case True
        then obtain ms where ms: "res = Some ms" "length ms > 0" by blast
        obtain r2 s2 where ro: "removeOrphan s1 (tx_hash t) = (r2, s2)"
          by (cases "removeOrphan s1 (tx_hash t)")
        have w2: "heights_from H s s2"
          using heights_from_same_r [OF map_p_removeOrphan [OF ro] w1] .
        show ?thesis
        proof (cases r2)
          case (Inl e)
          with Cons.prems Some i1 Inr ms ro have "s' = s2" by simp
          with w2 show ?thesis by simp
        next
          case Inr2: (Inr b)
          with Cons.prems Some i1 Inr ms ro
          have "handleOrphans_loop ins rest s2 = Some (r, s')" by simp
          from heights_from_trans [OF w2 Cons.IH [OF this]] show ?thesis .
        qed
      qed
    qed
  qed
qed

lemma heights_handleOrphans:
  assumes "ins_heights H ins" "handleOrphans ins s parent = Some (r, s')"
  shows "heights_from H s s'"
proof -
  obtain r1 s1 where ro: "resolveOrphans s parent = (r1, s1)"
    by (cases "resolveOrphans s parent")
  have w1: "heights_from H s s1"
    using heights_from_same [OF map_p_resolveOrphans [OF ro]] .
  show ?thesis
  proof (cases r1)
    case (Inl e)
    with assms(2) ro have "s' = s1" by (simp add: handleOrphans_def)
    with w1 show ?thesis by simp
  next
    case (Inr resolved)
    with assms(2) ro have "handleOrphans_loop ins resolved s1 = Some (r, s')"
      by (simp add: handleOrphans_def)
    from heights_from_trans [OF w1 heights_handleOrphans_loop [OF assms(1) this]]
    show ?thesis .
  qed
qed

lemma heights_addEntry:
  assumes "ins_heights H ins" "height entry = H" "addEntry ins env s entry v = Some (r, s')"
  shows "heights_from H s s'"
proof -
  obtain r1 s1 where tr: "trackEntry env s entry (Some v) = (r1, s1)"
    by (cases "trackEntry env s entry (Some v)")
  note w1 = heights_trackEntry [OF tr assms(2)]
  show ?thesis
  proof (cases r1)
    case (Inl e)
    with assms(3) tr have "s' = s1" by (simp add: addEntry_def)
    with w1 show ?thesis by simp
  next
    case (Inr u)
    let ?s2 = "snd (updateAncestors env s1 entry addFee)"
    let ?s4 = "emit (emit ?s2 (Ev_tx (hash_e entry))) (Ev_add_entry (hash_e entry))"
    have w4: "heights_from H s ?s4"
      using heights_from_trans [OF w1 heights_updateAncestors_addFee]
      by (simp add: heights_from_emit)
    from assms(3) tr Inr have "handleOrphans ins ?s4 (tx entry) = Some (r, s')"
      by (simp add: addEntry_def Let_def)
    from heights_from_trans [OF w4 heights_handleOrphans [OF assms(1) this]] show ?thesis .
  qed
qed

lemma heights_insertTX_admit:
  assumes "ins_heights (chain_height (chn env)) ins" "insertTX_admit ins n env s t v = Some (r, s')"
  shows "heights_from (chain_height (chn env)) s s'"
proof -
  let ?H = "chain_height (chn env)"
  let ?e = "fromTX env t v ?H"
  have he: "height ?e = ?H" by (simp add: fromTX_def)
  obtain r2 s2 where ve: "verify env s ?e v = (r2, s2)" by (cases "verify env s ?e v")
  have "map_p s2 = map_p s" using map_p_verify [of env s ?e v] ve by simp
  then have w2: "heights_from ?H s s2" by (rule heights_from_same)
  show ?thesis
  proof (cases r2)
    case (Inl e)
    with assms(2) ve have "s' = s2" by (simp add: insertTX_admit_def Let_def)
    with w2 show ?thesis by simp
  next
    case (Inr u)
    with assms(2) ve obtain r3 s3 where ae: "addEntry ins env s2 ?e v = Some (r3, s3)"
      by (cases "addEntry ins env s2 ?e v") (auto simp: insertTX_admit_def Let_def)
    note w3 = heights_from_trans [OF w2 heights_addEntry [OF assms(1) he ae]]
    show ?thesis
    proof (cases r3)
      case (Inl e)
      with assms(2) ve Inr ae have "s' = s3" by (simp add: insertTX_admit_def Let_def)
      with w3 show ?thesis by simp
    next
      case Inr3: (Inr u3)
      with assms(2) ve Inr ae obtain r4 s4 where
        ls: "limitSize n env s3 (tx_hash t) = Some (r4, s4)"
        by (cases "limitSize n env s3 (tx_hash t)") (auto simp: insertTX_admit_def Let_def)
      note w4 = heights_from_trans [OF w3 heights_limitSize [OF ls]]
      from assms(2) ve Inr ae Inr3 ls have "s' = s4"
        by (cases r4) (auto simp: insertTX_admit_def Let_def split: if_splits)
      with w4 show ?thesis by simp
    qed
  qed
qed

lemma heights_insertTX_body:
  assumes "ins_heights (chain_height (chn env)) ins" "insertTX_body ins n env s t i = Some (r, s')"
  shows "heights_from (chain_height (chn env)) s s'"
proof -
  let ?H = "chain_height (chn env)"
  show ?thesis
  proof (cases "mutable t \<or> insertTX_sanity env t \<noteq> None \<or> insertTX_known env s t \<noteq> None
                  \<or> isDoubleSpend s t \<or> (\<exists>e. getCoinView env s t = Inl e)")
    case True
    with assms(2) have "map_p s' = map_p s"
      by (auto simp: insertTX_body_def emit_def split: option.splits sum.splits if_splits)
    then show ?thesis by (rule heights_from_same)
  next
    case False
    then obtain v where v: "getCoinView env s t = Inr v"
      by (cases "getCoinView env s t") auto
    obtain r1 s1 where mo: "maybeOrphan env s t v i = (r1, s1)"
      by (cases "maybeOrphan env s t v i")
    have w1: "heights_from ?H s s1"
      using heights_from_same [OF map_p_maybeOrphan [OF mo]] .
    show ?thesis
    proof (cases "r1 = Inr None")
      case F2: False
      with assms(2) False v mo have "s' = s1"
        by (cases r1) (auto simp: insertTX_body_def split: option.splits)
      with w1 show ?thesis by simp
    next
      case True
      with assms(2) False v mo have "insertTX_admit ins n env s1 t v = Some (r, s')"
        by (auto simp: insertTX_body_def)
      from heights_from_trans [OF w1 heights_insertTX_admit [OF assms(1) this]] show ?thesis .
    qed
  qed
qed

lemma heights_insertTX: "ins_heights (chain_height (chn env)) (insertTX n env)"
proof (induction n)
  case 0
  show ?case by (simp add: ins_heights_def)
next
  case (Suc n)
  show ?case
    unfolding ins_heights_def
  proof (intro allI impI)
    fix s t i r s'
    assume "insertTX (Suc n) env s t i = Some (r, s')"
    then have "insertTX_body (insertTX n env) n env s t i = Some (r, s')" by simp
    from heights_insertTX_body [OF Suc this] show "heights_from (chain_height (chn env)) s s'" .
  qed
qed

lemma heights_removeBlock_loop:
  assumes "removeBlock_loop n env b txs s = Some (r, s')"
  shows "heights_from (chain_height (chn env)) s s'"
  using assms
proof (induction txs arbitrary: s)
  case Nil
  then show ?case by (simp add: heights_from_refl)
next
  case (Cons t rest)
  show ?case
  proof (cases "hasEntry s (tx_hash t)")
    case True
    with Cons show ?thesis by simp
  next
    case False
    with Cons.prems obtain r1 s1 where i1: "insertTX n env s t (- 1) = Some (r1, s1)"
      by (cases "insertTX n env s t (- 1)") (auto simp: Let_def)
    from heights_insertTX [of env n] i1 have w1: "heights_from (chain_height (chn env)) s s1"
      by (auto simp: ins_heights_def)
    from Cons.prems False i1
    have "s' = s1 \<or> (\<exists>ev. removeBlock_loop n env b rest (emit s1 ev) = Some (r, s'))"
      by (cases r1) (auto simp: Let_def emit_error_def split: if_splits)
    then show ?thesis
    proof
      assume "s' = s1"
      with w1 show ?thesis by simp
    next
      assume "\<exists>ev. removeBlock_loop n env b rest (emit s1 ev) = Some (r, s')"
      then obtain ev where "removeBlock_loop n env b rest (emit s1 ev) = Some (r, s')" by blast
      from Cons.IH [OF this] have "heights_from (chain_height (chn env)) (emit s1 ev) s'" .
      then have "heights_from (chain_height (chn env)) s1 s'"
        by (simp add: heights_from_def getEntry_def emit_def)
      from heights_from_trans [OF w1 this] show ?thesis .
    qed
  qed
qed

lemma view_txD: "getCoinView env0 s_P txD = Inr [(''Y'', 0) \<mapsto> 100]"
  by (simp add: getCoinView_def getTX_def s_P_def pool_of_def txD_def mk_tx_def env0_def chain0_def)

lemma fromTX_txD: "fromTX env0 txD v (chain_height (chn env0)) = eD"
  by (simp add: fromTX_def eD_def env0_def chain0_def txD_def mk_tx_def)

lemma maybeOrphan_txD: "maybeOrphan env0 s_P txD [(''Y'', 0) \<mapsto> 100] i = (Inr None, s_P)"
  by (simp add: maybeOrphan_def txD_def mk_tx_def)

lemma verify_txD: "verify env0 s_P eD v = (Inr (), s_P)"
  by (simp add: verify_def verify_scripts_def verifyInputs_def countAncestors_def updateAncestors_def
      env0_def options0_def chain0_def policy0_def eD_def txD_def mk_tx_def s_P_def pool_of_def Let_def)

lemma addEntry_txD: "addEntry ins env0 s_P eD v = Some (Inr (), s_PD)"
  by (simp add: addEntry_def trackEntry_def updateAncestors_def handleOrphans_def resolveOrphans_def
      emit_def hash_e_def memUsage_def
      env0_def options0_def eD_def txD_def mk_tx_def s_P_def s_PD_def pool_of_def Let_def)

lemma limitSize_txD: "limitSize n env0 s_PD h = Some (Inr False, s_PD)"
  by (simp add: limitSize_def env0_def options0_def s_PD_def pool_of_def Let_def)

lemma insertTX_txD: "insertTX (Suc n) env0 s_P txD i = Some (Inr None, s_PD)"
proof -
  have a: "\<not> mutable txD" by (simp add: txD_def mk_tx_def)
  have b: "insertTX_sanity env0 txD = None"
    by (simp add: insertTX_sanity_def env0_def options0_def chain0_def txD_def mk_tx_def)
  have c: "insertTX_known env0 s_P txD = None"
    by (simp add: insertTX_known_def exists_p_def hasOrphan_def hasEntry_def env0_def chain0_def
        s_P_def pool_of_def txD_def mk_tx_def)
  have d: "\<not> isDoubleSpend s_P txD"
    by (simp add: isDoubleSpend_def isSpent_def s_P_def pool_of_def txD_def mk_tx_def)
  have e: "insertTX_admit (insertTX n env0) n env0 s_P txD [(''Y'', 0) \<mapsto> 100] = Some (Inr None, s_PD)"
    unfolding insertTX_admit_def fromTX_txD Let_def
    by (simp add: verify_txD addEntry_txD limitSize_txD)
  show ?thesis
    using a b c d e by (simp add: insertTX_body_def view_txD maybeOrphan_txD)
qed

text \<open>
  C7 (as amended). When the pool map is empty at the start, \<open>_removeBlock\<close> only sets
  \<open>tip = block.prevBlock\<close> and puts nothing back. Otherwise it walks the transactions
  after the first one: a transaction that is in the pool map is skipped, and for every
  other one it calls \<open>insertTX(tx, -1)\<close>, where \<open>-1\<close> is the peer id. An error that
  \<open>insertTX\<close> throws goes to \<open>emit('error', e)\<close>: with a listener of \<open>error\<close> the walk goes
  on, without one the error leaves \<open>_removeBlock\<close>. After the walk the reject filter is
  reset and the cache is flushed, and when the flush succeeds \<open>tip = block.prevBlock\<close> is
  set: a call that returns has set the tip, and with a listener and no persistent cache
  every call that ends returns. Every entry of the pool map afterwards has the current
  height of the chain (\<open>chain.height\<close>, the height at which \<open>insertTX\<close> constructs an
  entry) or was in the pool map before with the height it has.
\<close>

theorem removeBlock'_reinstates:
  "(map_p s = [] \<longrightarrow> removeBlock' n env s b txs = Some (Inr (), s\<lparr>tip := prevBlock b\<rparr>))
   \<and> (removeBlock' n env s b txs = Some (r, s')
        \<longrightarrow> (r = Inr () \<longrightarrow> tip s' = prevBlock b)
            \<and> (errorListener env \<longrightarrow> \<not> persistent (opts env) \<longrightarrow> r = Inr ())
            \<and> (\<forall>h e. getEntry s' h = Some e
                  \<longrightarrow> height e = chain_height (chn env)
                      \<or> (\<exists>e0. getEntry s h = Some e0 \<and> height e0 = height e)))
   \<and> (map_p s \<noteq> []
        \<longrightarrow> removeBlock' n env s b txs
            = (case removeBlock_loop n env b (tl txs) s of
                 None \<Rightarrow> None
               | Some (Inl e, s1) \<Rightarrow> Some (Inl e, s1)
               | Some (Inr u, s1) \<Rightarrow>
                   (case cache_flush env (s1\<lparr>rejects := []\<rparr>) of
                      Some e \<Rightarrow> Some (Inl e, s1\<lparr>rejects := []\<rparr>)
                    | None \<Rightarrow> Some (Inr (), s1\<lparr>rejects := [], tip := prevBlock b\<rparr>))))
   \<and> (hasEntry s (tx_hash t)
        \<longrightarrow> removeBlock_loop n env b (t # rest) s = removeBlock_loop n env b rest s)
   \<and> (\<not> hasEntry s (tx_hash t)
        \<longrightarrow> removeBlock_loop n env b (t # rest) s
            = (case insertTX n env s t (- 1) of
                 None \<Rightarrow> None
               | Some (Inl e, s1) \<Rightarrow>
                   if errorListener env then removeBlock_loop n env b rest (emit s1 (Ev_error e))
                   else Some (Inl e, s1)
               | Some (Inr res, s1) \<Rightarrow>
                   removeBlock_loop n env b rest
                     (emit s1 (Ev_unconfirmed (tx_hash t) (block_hash b)))))"
proof -
  have 1: "map_p s = [] \<longrightarrow> removeBlock' n env s b txs = Some (Inr (), s\<lparr>tip := prevBlock b\<rparr>)"
    by (simp add: removeBlock'_def)
  have 2: "removeBlock' n env s b txs = Some (r, s')
        \<longrightarrow> (r = Inr () \<longrightarrow> tip s' = prevBlock b)
            \<and> (errorListener env \<longrightarrow> \<not> persistent (opts env) \<longrightarrow> r = Inr ())
            \<and> (\<forall>h e. getEntry s' h = Some e
                  \<longrightarrow> height e = chain_height (chn env)
                      \<or> (\<exists>e0. getEntry s h = Some e0 \<and> height e0 = height e))"
  proof
    assume a: "removeBlock' n env s b txs = Some (r, s')"
    show "(r = Inr () \<longrightarrow> tip s' = prevBlock b)
            \<and> (errorListener env \<longrightarrow> \<not> persistent (opts env) \<longrightarrow> r = Inr ())
            \<and> (\<forall>h e. getEntry s' h = Some e
                  \<longrightarrow> height e = chain_height (chn env)
                      \<or> (\<exists>e0. getEntry s h = Some e0 \<and> height e0 = height e))"
    proof (cases "length (map_p s) = 0")
      case True
      with a have "r = Inr ()" "s' = s\<lparr>tip := prevBlock b\<rparr>" by (auto simp: removeBlock'_def)
      then show ?thesis by (simp add: getEntry_def)
    next
      case False
      with a obtain r1 s1 where l: "removeBlock_loop n env b (tl txs) s = Some (r1, s1)"
        by (cases "removeBlock_loop n env b (tl txs) s") (auto simp: removeBlock'_def)
      from a False l have mp: "map_p s' = map_p s1"
        by (auto simp: removeBlock'_def Let_def split: sum.splits option.splits)
      from a False l have tp: "r = Inr () \<longrightarrow> tip s' = prevBlock b"
        by (auto simp: removeBlock'_def Let_def split: sum.splits option.splits)
      have li: "errorListener env \<longrightarrow> \<not> persistent (opts env) \<longrightarrow> r = Inr ()"
      proof (intro impI)
        assume e: "errorListener env" and p: "\<not> persistent (opts env)"
        from removeBlock_loop_listener [OF e l] have "r1 = Inr ()" .
        with a False l p show "r = Inr ()"
          by (auto simp: removeBlock'_def Let_def cache_flush_def)
      qed
      from heights_removeBlock_loop [OF l] mp
      have "heights_from (chain_height (chn env)) s s'"
        by (simp add: heights_from_def getEntry_def)
      with tp li show ?thesis by (simp add: heights_from_def)
    qed
  qed
  have 3: "map_p s \<noteq> []
        \<longrightarrow> removeBlock' n env s b txs
            = (case removeBlock_loop n env b (tl txs) s of
                 None \<Rightarrow> None
               | Some (Inl e, s1) \<Rightarrow> Some (Inl e, s1)
               | Some (Inr u, s1) \<Rightarrow>
                   (case cache_flush env (s1\<lparr>rejects := []\<rparr>) of
                      Some e \<Rightarrow> Some (Inl e, s1\<lparr>rejects := []\<rparr>)
                    | None \<Rightarrow> Some (Inr (), s1\<lparr>rejects := [], tip := prevBlock b\<rparr>)))"
    by (simp add: removeBlock'_def Let_def split: option.splits sum.splits prod.splits)
  have 4: "hasEntry s (tx_hash t)
        \<longrightarrow> removeBlock_loop n env b (t # rest) s = removeBlock_loop n env b rest s"
    by simp
  have 5: "\<not> hasEntry s (tx_hash t)
        \<longrightarrow> removeBlock_loop n env b (t # rest) s
            = (case insertTX n env s t (- 1) of
                 None \<Rightarrow> None
               | Some (Inl e, s1) \<Rightarrow>
                   if errorListener env then removeBlock_loop n env b rest (emit s1 (Ev_error e))
                   else Some (Inl e, s1)
               | Some (Inr res, s1) \<Rightarrow>
                   removeBlock_loop n env b rest
                     (emit s1 (Ev_unconfirmed (tx_hash t) (block_hash b))))"
    by (simp add: Let_def emit_error_def split: option.splits sum.splits prod.splits)
  show ?thesis by (intro conjI) (fact 1 2 3 4 5)+
qed

lemma removeBlock'_txD:
  "removeBlock' 2 env0 s_P b101 [txCB, txD]
     = Some (Inr (), s_PD\<lparr>events := [Ev_tx ''D'', Ev_add_entry ''D'', Ev_unconfirmed ''D'' ''B101''],
                            tip := ''B100''\<rparr>)"
proof -
  have ne: "length (map_p s_P) \<noteq> 0" by (simp add: s_P_def pool_of_def)
  have d: "\<not> hasEntry s_P (tx_hash txD)"
    by (simp add: hasEntry_def s_P_def pool_of_def txD_def mk_tx_def)
  have i: "insertTX 2 env0 s_P txD (- 1) = Some (Inr None, s_PD)"
    using insertTX_txD [of 1 "- 1"] by (simp add: numeral_2_eq_2)
  have l: "removeBlock_loop 2 env0 b101 [txD] s_P
             = Some (Inr (), emit s_PD (Ev_unconfirmed (tx_hash txD) (block_hash b101)))"
    using d i by simp
  have fl: "cache_flush env0 s2 = None" for s2
    by (simp add: cache_flush_def env0_def options0_def)
  have "removeBlock' 2 env0 s_P b101 [txCB, txD]
          = Some (Inr (), (emit s_PD (Ev_unconfirmed (tx_hash txD) (block_hash b101)))
                            \<lparr>rejects := [], tip := prevBlock b101\<rparr>)"
    unfolding removeBlock'_def using l ne by (simp add: fl)
  then show ?thesis
    by (simp add: emit_def s_PD_def pool_of_def b101_def txD_def mk_tx_def)
qed

theorem removeBlock'_reinstates_witness:
  "removeBlock' 2 env0 s_P b101 [txCB, txD]
     = Some (Inr (), s_PD\<lparr>events := [Ev_tx ''D'', Ev_add_entry ''D'', Ev_unconfirmed ''D'' ''B101''],
                            tip := ''B100''\<rparr>)
   \<and> getEntry (s_PD\<lparr>events := [Ev_tx ''D'', Ev_add_entry ''D'', Ev_unconfirmed ''D'' ''B101''],
                     tip := ''B100''\<rparr>) ''D'' = Some eD
   \<and> getEntry s_P ''D'' = None
   \<and> height eD = chain_height (chn env0)"
proof -
  let ?s' = "s_PD\<lparr>events := [Ev_tx ''D'', Ev_add_entry ''D'', Ev_unconfirmed ''D'' ''B101''],
                   tip := ''B100''\<rparr>"
  have g: "getEntry ?s' ''D'' = Some eD" by (simp add: getEntry_def s_PD_def pool_of_def)
  have n: "getEntry s_P ''D'' = None" by (simp add: getEntry_def s_P_def pool_of_def)
  from removeBlock'_reinstates [of s_P 2 env0 b101 "[txCB, txD]" "Inr ()" ?s'] removeBlock'_txD
  have "\<forall>h e. getEntry ?s' h = Some e
          \<longrightarrow> height e = chain_height (chn env0)
              \<or> (\<exists>e0. getEntry s_P h = Some e0 \<and> height e0 = height e)"
    by blast
  with g n have "height eD = chain_height (chn env0)" by fastforce
  with removeBlock'_txD g n show ?thesis by blast
qed

text \<open>
  The claim as worded fails in four ways. With \<open>P\<close> in the pool, \<open>_removeBlock\<close> puts the
  transaction \<open>D\<close> of the block back at the height 100 of the chain, not at height -1:
  the \<open>-1\<close> of \<open>insertTX(tx, -1)\<close> is the peer id. On an empty pool map it does not call
  \<open>insertTX\<close> at all: \<open>D\<close> is absent from the pool and stays absent. Without a listener of
  \<open>error\<close>, the \<open>VerifyError\<close> that \<open>insertTX\<close> throws for \<open>Q\<close> leaves \<open>_removeBlock\<close>: \<open>D\<close>,
  which comes after \<open>Q\<close> in the block, is not put back, and the tip is not set. And when
  the flush of a persistent cache fails, \<open>_removeBlock\<close> throws after it has put \<open>D\<close> back
  and before it sets the tip.
\<close>

theorem removeBlock'_height_counterexample:
  "removeBlock' 2 env0 s_P b101 [txCB, txD]
     = Some (Inr (), s_PD\<lparr>events := [Ev_tx ''D'', Ev_add_entry ''D'', Ev_unconfirmed ''D'' ''B101''],
                            tip := ''B100''\<rparr>)
   \<and> map_option height
        (getEntry (s_PD\<lparr>events := [Ev_tx ''D'', Ev_add_entry ''D'', Ev_unconfirmed ''D'' ''B101''],
                          tip := ''B100''\<rparr>) ''D'') = Some 100
   \<and> map_option height
        (getEntry (s_PD\<lparr>events := [Ev_tx ''D'', Ev_add_entry ''D'', Ev_unconfirmed ''D'' ''B101''],
                          tip := ''B100''\<rparr>) ''D'') \<noteq> Some (- 1)
   \<and> \<not> hasEntry (pool_of [] [] 0) (tx_hash txD)
   \<and> removeBlock' 2 env0 (pool_of [] [] 0) b101 [txCB, txD]
       = Some (Inr (), (pool_of [] [] 0)\<lparr>tip := ''B100''\<rparr>)
   \<and> \<not> hasEntry ((pool_of [] [] 0)\<lparr>tip := ''B100''\<rparr>) (tx_hash txD)
   \<and> removeBlock' 2 env_nl s_P b101 [txCB, txQ, txD]
       = Some (Inl (newVerifyError txQ ''duplicate'' ''bad-txns-inputs-spent'' 0 False),
               s_P\<lparr>events := [Ev_conflict ''Q'']\<rparr>)
   \<and> \<not> hasEntry (s_P\<lparr>events := [Ev_conflict ''Q'']\<rparr>) (tx_hash txD)
   \<and> tip (s_P\<lparr>events := [Ev_conflict ''Q'']\<rparr>) \<noteq> prevBlock b101
   \<and> removeBlock' 2 env_wf s_P b101 [txCB, txD]
       = Some (Inl (OtherError ''write failed''),
               s_PD\<lparr>events := [Ev_tx ''D'', Ev_add_entry ''D'', Ev_unconfirmed ''D'' ''B101'']\<rparr>)
   \<and> tip (s_PD\<lparr>events := [Ev_tx ''D'', Ev_add_entry ''D'', Ev_unconfirmed ''D'' ''B101'']\<rparr>)
       \<noteq> prevBlock b101"
proof -
  have a: "map_option height
        (getEntry (s_PD\<lparr>events := [Ev_tx ''D'', Ev_add_entry ''D'', Ev_unconfirmed ''D'' ''B101''],
                          tip := ''B100''\<rparr>) ''D'') = Some 100"
    by (simp add: getEntry_def s_PD_def pool_of_def eD_def)
  have b: "removeBlock' 2 env0 (pool_of [] [] 0) b101 [txCB, txD]
       = Some (Inr (), (pool_of [] [] 0)\<lparr>tip := ''B100''\<rparr>)"
    by (simp add: removeBlock'_def pool_of_def b101_def)
  have c: "\<not> hasEntry (pool_of [] [] 0) (tx_hash txD)"
      "\<not> hasEntry ((pool_of [] [] 0)\<lparr>tip := ''B100''\<rparr>) (tx_hash txD)"
    by (simp_all add: hasEntry_def pool_of_def)
  have a2: "map_option height
        (getEntry (s_PD\<lparr>events := [Ev_tx ''D'', Ev_add_entry ''D'', Ev_unconfirmed ''D'' ''B101''],
                          tip := ''B100''\<rparr>) ''D'') \<noteq> Some (- 1)"
    unfolding a by simp
  have d: "removeBlock' 2 env_nl s_P b101 [txCB, txQ, txD]
       = Some (Inl (newVerifyError txQ ''duplicate'' ''bad-txns-inputs-spent'' 0 False),
               s_P\<lparr>events := [Ev_conflict ''Q'']\<rparr>)"
    by (simp add: removeBlock'_def emit_error_def admission_eval env_nl_def s_P_def eP_def
        txP_def txQ_def txD_def eval_nat_numeral)
  have e: "\<not> hasEntry (s_P\<lparr>events := [Ev_conflict ''Q'']\<rparr>) (tx_hash txD)"
      "tip (s_P\<lparr>events := [Ev_conflict ''Q'']\<rparr>) \<noteq> prevBlock b101"
    by (simp_all add: hasEntry_def s_P_def pool_of_def txD_def mk_tx_def b101_def)
  have f: "removeBlock' 2 env_wf s_P b101 [txCB, txD]
       = Some (Inl (OtherError ''write failed''),
               s_PD\<lparr>events := [Ev_tx ''D'', Ev_add_entry ''D'', Ev_unconfirmed ''D'' ''B101'']\<rparr>)"
    by (simp add: removeBlock'_def emit_error_def cache_flush_def admission_eval env_wf_def
        s_P_def s_PD_def eP_def eD_def txP_def txD_def b101_def eval_nat_numeral)
  have g: "tip (s_PD\<lparr>events := [Ev_tx ''D'', Ev_add_entry ''D'', Ev_unconfirmed ''D'' ''B101'']\<rparr>)
       \<noteq> prevBlock b101"
    by (simp add: s_PD_def pool_of_def b101_def)
  show ?thesis by (intro conjI) (fact removeBlock'_txD a a2 b c d e f g)+
qed

end
